theory Spec2Isabelle
  imports Complex_Main "HOL-Library.Multiset" "HOL-Library.Log_Nat" "HOL-Library.Product_Lexorder"
begin

section \<open>Data model of \<open>generator_interactive_heatmap_speed.go\<close>\<close>

text \<open>
  A \<open>float64\<close> is a finite real, one of the two infinities, or NaN. The sign of a zero
  is not tracked: every divisor of the program is either an integer converted to
  \<open>float64\<close> (which is never the negative zero) or a value whose sign does not decide the
  quotient, comparisons identify the two zeros, and so does the conversion to an integer.
\<close>

datatype float64 = Fin real | PInf | NInf | NaN

text \<open>
  Arithmetic rounds to nearest, ties to even, on the binary64 grid: \<open>expo\<close> is the binary
  exponent of a real, \<open>quantum\<close> the spacing of the grid around it (from the subnormal
  spacing \<open>2^-1074\<close> upwards), \<open>nearest\<close> the grid point, and \<open>round64\<close> overflows to
  an infinity from \<open>2^1024\<close> on.
\<close>

definition pow2 :: "int \<Rightarrow> real" where
  "pow2 k = 2 powi k"

definition expo :: "real \<Rightarrow> int" where
  "expo x = (if 1 \<le> \<bar>x\<bar> then int (floorlog 2 (nat \<lfloor>\<bar>x\<bar>\<rfloor>)) - 1
             else - int (floorlog 2 (nat (\<lceil>1 / \<bar>x\<bar>\<rceil> - 1))))"

definition rne :: "real \<Rightarrow> int" where
  "rne y = (let f = \<lfloor>y\<rfloor> in
            if y - of_int f < 1 / 2 then f
            else if 1 / 2 < y - of_int f then f + 1
            else if even f then f else f + 1)"

definition quantum :: "real \<Rightarrow> real" where
  "quantum x = pow2 (max (expo x) (- 1022) - 52)"

definition nearest :: "real \<Rightarrow> real" where
  "nearest x = of_int (rne (x / quantum x)) * quantum x"

definition round64 :: "real \<Rightarrow> float64" where
  "round64 x = (let y = nearest x in
                if pow2 1024 \<le> \<bar>y\<bar> then (if 0 < y then PInf else NInf) else Fin y)"

text \<open>
  The operations of the program on \<open>float64\<close>. \<open>fmax\<close> and \<open>fmin\<close> are \<open>math.Max\<close> and
  \<open>math.Min\<close>, which test for the infinity first and for NaN second. \<open>int64_of_float64\<close>
  is the conversion \<open>int64(x)\<close> (and \<open>int(x)\<close>): it truncates towards zero; for NaN, the
  infinities and values out of range Go leaves the result to the implementation, and
  the value taken here is the one of amd64. \<open>wrap64\<close> is two's complement wrap-around.
\<close>

fun flt :: "float64 \<Rightarrow> float64 \<Rightarrow> bool" where
  "flt NaN _ = False"
| "flt _ NaN = False"
| "flt PInf _ = False"
| "flt _ PInf = True"
| "flt _ NInf = False"
| "flt NInf _ = True"
| "flt (Fin a) (Fin b) = (a < b)"

fun fle :: "float64 \<Rightarrow> float64 \<Rightarrow> bool" where
  "fle NaN _ = False"
| "fle _ NaN = False"
| "fle _ PInf = True"
| "fle PInf _ = False"
| "fle NInf _ = True"
| "fle _ NInf = False"
| "fle (Fin a) (Fin b) = (a \<le> b)"

fun fadd :: "float64 \<Rightarrow> float64 \<Rightarrow> float64" where
  "fadd NaN _ = NaN"
| "fadd _ NaN = NaN"
| "fadd PInf NInf = NaN"
| "fadd NInf PInf = NaN"
| "fadd PInf _ = PInf"
| "fadd _ PInf = PInf"
| "fadd NInf _ = NInf"
| "fadd _ NInf = NInf"
| "fadd (Fin a) (Fin b) = round64 (a + b)"

fun fsub :: "float64 \<Rightarrow> float64 \<Rightarrow> float64" where
  "fsub NaN _ = NaN"
| "fsub _ NaN = NaN"
| "fsub PInf PInf = NaN"
| "fsub NInf NInf = NaN"
| "fsub PInf _ = PInf"
| "fsub _ PInf = NInf"
| "fsub NInf _ = NInf"
| "fsub _ NInf = PInf"
| "fsub (Fin a) (Fin b) = round64 (a - b)"

fun fmul :: "float64 \<Rightarrow> float64 \<Rightarrow> float64" where
  "fmul NaN _ = NaN"
| "fmul _ NaN = NaN"
| "fmul PInf PInf = PInf"
| "fmul PInf NInf = NInf"
| "fmul NInf PInf = NInf"
| "fmul NInf NInf = PInf"
| "fmul PInf (Fin b) = (if b = 0 then NaN else if 0 < b then PInf else NInf)"
| "fmul NInf (Fin b) = (if b = 0 then NaN else if 0 < b then NInf else PInf)"
| "fmul (Fin a) PInf = (if a = 0 then NaN else if 0 < a then PInf else NInf)"
| "fmul (Fin a) NInf = (if a = 0 then NaN else if 0 < a then NInf else PInf)"
| "fmul (Fin a) (Fin b) = round64 (a * b)"

fun fdiv :: "float64 \<Rightarrow> float64 \<Rightarrow> float64" where
  "fdiv NaN _ = NaN"
| "fdiv _ NaN = NaN"
| "fdiv PInf PInf = NaN"
| "fdiv PInf NInf = NaN"
| "fdiv NInf PInf = NaN"
| "fdiv NInf NInf = NaN"
| "fdiv PInf (Fin b) = (if 0 \<le> b then PInf else NInf)"
| "fdiv NInf (Fin b) = (if 0 \<le> b then NInf else PInf)"
| "fdiv (Fin a) PInf = Fin 0"
| "fdiv (Fin a) NInf = Fin 0"
| "fdiv (Fin a) (Fin b) =
     (if b = 0 then (if a = 0 then NaN else if 0 < a then PInf else NInf)
      else round64 (a / b))"

fun fabs :: "float64 \<Rightarrow> float64" where
  "fabs (Fin a) = Fin \<bar>a\<bar>"
| "fabs PInf = PInf"
| "fabs NInf = PInf"
| "fabs NaN = NaN"

definition fmax :: "float64 \<Rightarrow> float64 \<Rightarrow> float64" where
  "fmax x y = (if x = PInf \<or> y = PInf then PInf
               else if x = NaN \<or> y = NaN then NaN
               else if flt y x then x else y)"

definition fmin :: "float64 \<Rightarrow> float64 \<Rightarrow> float64" where
  "fmin x y = (if x = NInf \<or> y = NInf then NInf
               else if x = NaN \<or> y = NaN then NaN
               else if flt x y then x else y)"

definition float64_of_int :: "int \<Rightarrow> float64" where
  "float64_of_int k = round64 (of_int k)"

definition trunc :: "real \<Rightarrow> int" where
  "trunc r = (if 0 \<le> r then \<lfloor>r\<rfloor> else \<lceil>r\<rceil>)"

definition int64_of_float64 :: "float64 \<Rightarrow> int" where
  "int64_of_float64 x =
     (case x of
        Fin r \<Rightarrow> if - (2 ^ 63) \<le> trunc r \<and> trunc r < 2 ^ 63 then trunc r else - (2 ^ 63)
      | _ \<Rightarrow> - (2 ^ 63))"

definition wrap64 :: "int \<Rightarrow> int" where
  "wrap64 k = (k + 2 ^ 63) mod 2 ^ 64 - 2 ^ 63"

subsection \<open>Facts about rounding\<close>

lemma pow2_pos [simp]: "0 < pow2 a"
  by (simp add: pow2_def)

lemma pow2_nonneg [simp]: "0 \<le> pow2 a"
  by (simp add: pow2_def)

lemma pow2_nz [simp]: "pow2 a \<noteq> 0"
  by (simp add: pow2_def)

lemma pow2_less_iff [simp]: "pow2 a < pow2 b \<longleftrightarrow> a < b"
proof
  assume "pow2 a < pow2 b"
  then show "a < b"
    using power_int_increasing [of b a "2::real"] by (cases "a < b") (auto simp: pow2_def)
next
  assume "a < b"
  then show "pow2 a < pow2 b"
    by (simp add: pow2_def power_int_strict_increasing)
qed

lemma pow2_le_iff [simp]: "pow2 a \<le> pow2 b \<longleftrightarrow> a \<le> b"
  using pow2_less_iff [of b a] by (simp only: not_less [symmetric])

lemma pow2_div: "pow2 a / pow2 b = pow2 (a - b)"
  by (simp add: pow2_def power_int_diff)

lemma pow2_mult: "pow2 a * pow2 b = pow2 (a + b)"
  by (simp add: pow2_def power_int_add)

lemma pow2_nat: "pow2 (int n) = 2 ^ n"
  by (simp add: pow2_def)

lemma pow2_neg_nat: "pow2 (- int n) = 1 / 2 ^ n"
  by (simp add: pow2_def power_int_minus_divide)

lemma pow2_of_int: "0 \<le> k \<Longrightarrow> pow2 k = of_int (2 ^ nat k)"
  by (simp add: pow2_def power_int_def)

lemma real_pow_le_of_nat: "(2::nat) ^ k \<le> n \<Longrightarrow> (2::real) ^ k \<le> real n"
  by (metis of_nat_le_iff of_nat_numeral of_nat_power)

lemma real_of_nat_le_pow: "n \<le> (2::nat) ^ k \<Longrightarrow> real n \<le> (2::real) ^ k"
  by (metis of_nat_le_iff of_nat_numeral of_nat_power)

lemma expo_bounds:
  assumes "x \<noteq> 0"
  shows "pow2 (expo x) \<le> \<bar>x\<bar>" and "\<bar>x\<bar> < pow2 (expo x + 1)"
proof -
  show "pow2 (expo x) \<le> \<bar>x\<bar>"
  proof (cases "1 \<le> \<bar>x\<bar>")
    case True
    define n where "n = nat \<lfloor>\<bar>x\<bar>\<rfloor>"
    have n: "0 < n" "real n \<le> \<bar>x\<bar>" using True by (auto simp: n_def)
    have "2 ^ (floorlog 2 n - 1) \<le> n" using floorlog_bounds [of n 2] n by simp
    then have "(2::real) ^ (floorlog 2 n - 1) \<le> real n" by (rule real_pow_le_of_nat)
    moreover have "expo x = int (floorlog 2 n - 1)"
      using True n floorlog_eq_zero_iff [of 2 n] by (simp add: expo_def n_def of_nat_diff Suc_leI)
    then have "pow2 (expo x) = (2::real) ^ (floorlog 2 n - 1)" by (simp only: pow2_nat)
    ultimately show ?thesis using n by linarith
  next
    case False
    define m where "m = nat (\<lceil>1 / \<bar>x\<bar>\<rceil> - 1)"
    have y: "1 < 1 / \<bar>x\<bar>" using False assms by simp
    then have c2: "2 \<le> \<lceil>1 / \<bar>x\<bar>\<rceil>" by linarith
    then have im: "int m = \<lceil>1 / \<bar>x\<bar>\<rceil> - 1" unfolding m_def by linarith
    have rm: "real_of_int (int m) = of_int (\<lceil>1 / \<bar>x\<bar>\<rceil> - 1)" by (simp only: im)
    have m0: "0 < m" using c2 im by linarith
    have m1: "real m + 1 = of_int \<lceil>1 / \<bar>x\<bar>\<rceil>" using rm by simp
    have "m < 2 ^ floorlog 2 m" using floorlog_bounds [of m 2] m0 by simp
    then have "Suc m \<le> 2 ^ floorlog 2 m" by simp
    then have "real (Suc m) \<le> 2 ^ floorlog 2 m" by (rule real_of_nat_le_pow)
    then have "1 / \<bar>x\<bar> \<le> 2 ^ floorlog 2 m" using m1 by simp linarith
    then have "1 / 2 ^ floorlog 2 m \<le> \<bar>x\<bar>" using assms
      by (simp add: field_simps)
    moreover have "expo x = - int (floorlog 2 m)" using False by (simp add: expo_def m_def)
    then have "pow2 (expo x) = 1 / 2 ^ floorlog 2 m" by (simp only: pow2_neg_nat)
    ultimately show ?thesis by simp
  qed
  show "\<bar>x\<bar> < pow2 (expo x + 1)"
  proof (cases "1 \<le> \<bar>x\<bar>")
    case True
    define n where "n = nat \<lfloor>\<bar>x\<bar>\<rfloor>"
    have n: "0 < n" "\<bar>x\<bar> < real n + 1" using True by (auto simp: n_def)
    have "n < 2 ^ floorlog 2 n" using floorlog_bounds [of n 2] n by simp
    then have "Suc n \<le> 2 ^ floorlog 2 n" by simp
    then have "real (Suc n) \<le> 2 ^ floorlog 2 n" by (rule real_of_nat_le_pow)
    moreover have "expo x + 1 = int (floorlog 2 n)"
      using True by (simp add: expo_def n_def)
    then have "pow2 (expo x + 1) = 2 ^ floorlog 2 n" by (simp only: pow2_nat)
    ultimately show ?thesis using n by simp
  next
    case False
    define m where "m = nat (\<lceil>1 / \<bar>x\<bar>\<rceil> - 1)"
    have y: "1 < 1 / \<bar>x\<bar>" using False assms by simp
    then have c2: "2 \<le> \<lceil>1 / \<bar>x\<bar>\<rceil>" by linarith
    then have im: "int m = \<lceil>1 / \<bar>x\<bar>\<rceil> - 1" unfolding m_def by linarith
    have rm: "real_of_int (int m) = of_int (\<lceil>1 / \<bar>x\<bar>\<rceil> - 1)" by (simp only: im)
    have m0: "0 < m" using c2 im by linarith
    have m1: "real m + 1 = of_int \<lceil>1 / \<bar>x\<bar>\<rceil>" using rm by simp
    have fl: "0 < floorlog 2 m" using m0 floorlog_eq_zero_iff [of 2 m] by simp
    have "2 ^ (floorlog 2 m - 1) \<le> m" using floorlog_bounds [of m 2] m0 by simp
    then have "(2::real) ^ (floorlog 2 m - 1) \<le> real m" by (rule real_pow_le_of_nat)
    moreover have "real m < 1 / \<bar>x\<bar>" using m1 by linarith
    ultimately have "(2::real) ^ (floorlog 2 m - 1) < 1 / \<bar>x\<bar>" by linarith
    then have "\<bar>x\<bar> < 1 / 2 ^ (floorlog 2 m - 1)" using assms
      by (simp add: field_simps)
    moreover have "expo x + 1 = - int (floorlog 2 m - 1)"
      using False fl by (simp add: expo_def m_def of_nat_diff Suc_leI)
    then have "pow2 (expo x + 1) = 1 / 2 ^ (floorlog 2 m - 1)" by (simp only: pow2_neg_nat)
    ultimately show ?thesis by simp
  qed
qed

lemma expo_unique:
  assumes "pow2 e \<le> \<bar>x\<bar>" and "\<bar>x\<bar> < pow2 (e + 1)"
  shows "expo x = e"
proof -
  have "0 < pow2 e" by simp
  then have "0 < \<bar>x\<bar>" using assms(1) by linarith
  then have nz: "x \<noteq> 0" by simp
  have "pow2 (expo x) < pow2 (e + 1)"
    using expo_bounds(1) [OF nz] assms(2) by linarith
  then have a: "expo x < e + 1" by simp
  have "pow2 e < pow2 (expo x + 1)"
    using expo_bounds(2) [OF nz] assms(1) by linarith
  then have b: "e < expo x + 1" by simp
  show ?thesis using a b by simp
qed

lemma expo_mono:
  assumes "x \<noteq> 0" and "\<bar>x\<bar> \<le> \<bar>y\<bar>"
  shows "expo x \<le> expo y"
proof -
  have ny: "y \<noteq> 0" using assms by auto
  have "pow2 (expo x) < pow2 (expo y + 1)"
    using expo_bounds(1) [OF assms(1)] expo_bounds(2) [OF ny] assms(2) by linarith
  then show ?thesis by simp
qed

lemma expo_minus [simp]: "expo (- x) = expo x"
  by (simp add: expo_def)

lemma rne_cases: "rne y = \<lfloor>y\<rfloor> \<or> rne y = \<lfloor>y\<rfloor> + 1"
  by (simp add: rne_def Let_def)

lemma rne_of_int [simp]: "rne (of_int k) = k"
  by (simp add: rne_def)

lemma rne_0 [simp]: "rne 0 = 0"
  using rne_of_int [of 0] by simp

lemma rne_error: "\<bar>of_int (rne y) - y\<bar> \<le> 1 / 2"
  unfolding rne_def Let_def by (auto split: if_splits)

lemma rne_mono:
  assumes "x \<le> y"
  shows "rne x \<le> rne y"
proof (cases "\<lfloor>x\<rfloor> = \<lfloor>y\<rfloor>")
  case True
  then show ?thesis using assms unfolding rne_def Let_def by (auto split: if_splits)
next
  case False
  then have "\<lfloor>x\<rfloor> + 1 \<le> \<lfloor>y\<rfloor>" using floor_mono [OF assms] by linarith
  moreover have "rne x \<le> \<lfloor>x\<rfloor> + 1" using rne_cases [of x] by linarith
  moreover have "\<lfloor>y\<rfloor> \<le> rne y" using rne_cases [of y] by linarith
  ultimately show ?thesis by linarith
qed

lemma rne_le_int: "y \<le> of_int k \<Longrightarrow> rne y \<le> k"
  using rne_mono [of y "of_int k"] by simp

lemma rne_ge_int: "of_int k \<le> y \<Longrightarrow> k \<le> rne y"
  using rne_mono [of "of_int k" y] by simp

lemma rne_minus: "rne (- y) = - rne y"
proof (cases "y \<in> \<int>")
  case True
  then obtain k where "y = of_int k" by (auto elim: Ints_cases)
  then show ?thesis by (simp flip: of_int_minus)
next
  case False
  then have "y \<noteq> of_int \<lfloor>y\<rfloor>" by (metis Ints_of_int)
  then have "\<lceil>y\<rceil> = \<lfloor>y\<rfloor> + 1" by (simp add: ceiling_altdef)
  then have fl: "\<lfloor>- y\<rfloor> = - \<lfloor>y\<rfloor> - 1" by (simp add: ceiling_def)
  show ?thesis unfolding rne_def Let_def fl by (auto split: if_splits)
qed

lemma quantum_pos [simp]: "0 < quantum x"
  by (simp add: quantum_def)

lemma quantum_nonneg [simp]: "0 \<le> quantum x"
  by (simp add: quantum_def)

lemma quantum_nz [simp]: "quantum x \<noteq> 0"
  by (simp add: quantum_def)

lemma quantum_minus [simp]: "quantum (- x) = quantum x"
  by (simp add: quantum_def)

lemma nearest_minus: "nearest (- x) = - nearest x"
  by (simp add: nearest_def rne_minus)

lemma nearest_0 [simp]: "nearest 0 = 0"
  by (simp add: nearest_def)

lemma nearest_error: "\<bar>nearest x - x\<bar> \<le> quantum x / 2"
proof -
  have "\<bar>of_int (rne (x / quantum x)) - x / quantum x\<bar> * quantum x \<le> 1 / 2 * quantum x"
    by (intro mult_right_mono rne_error) simp
  moreover have "\<bar>of_int (rne (x / quantum x)) - x / quantum x\<bar> * quantum x = \<bar>nearest x - x\<bar>"
  proof -
    have "\<bar>of_int (rne (x / quantum x)) - x / quantum x\<bar> * quantum x
        = \<bar>(of_int (rne (x / quantum x)) - x / quantum x) * quantum x\<bar>"
      by (simp add: abs_mult)
    also have "(of_int (rne (x / quantum x)) - x / quantum x) * quantum x = nearest x - x"
      by (simp add: nearest_def field_simps)
    finally show ?thesis .
  qed
  ultimately show ?thesis by simp
qed

lemma nearest_exact:
  assumes "x / quantum x = of_int m"
  shows "nearest x = x"
proof -
  have "nearest x = of_int m * quantum x" using assms by (simp add: nearest_def)
  also have "\<dots> = x / quantum x * quantum x" by (simp only: assms)
  finally show ?thesis by simp
qed

lemma nearest_nonneg: "0 \<le> x \<Longrightarrow> 0 \<le> nearest x"
proof -
  assume "0 \<le> x"
  then have "rne 0 \<le> rne (x / quantum x)" by (intro rne_mono) simp
  then show ?thesis by (simp add: nearest_def)
qed

text \<open>Within one binade the result stays between the two powers of two.\<close>

lemma nearest_upper:
  assumes "0 < x"
  shows "nearest x \<le> pow2 (max (expo x) (- 1022) + 1)"
proof -
  let ?e = "max (expo x) (- 1022)"
  have q: "quantum x = pow2 (?e - 52)" by (simp add: quantum_def)
  have "x < pow2 (expo x + 1)" using expo_bounds(2) [of x] assms by simp
  moreover have "pow2 (expo x + 1) \<le> pow2 (?e + 1)" by simp
  ultimately have "x \<le> pow2 (?e + 1)" by linarith
  then have "x / quantum x \<le> pow2 (?e + 1) / quantum x"
    by (simp add: divide_right_mono)
  also have "pow2 (?e + 1) / quantum x = pow2 53"
    unfolding q pow2_div by (rule arg_cong [where f = pow2]) simp
  also have "pow2 53 = of_int (2 ^ nat 53)" by (rule pow2_of_int) simp
  finally have "rne (x / quantum x) \<le> 2 ^ nat 53" by (rule rne_le_int)
  then have "real_of_int (rne (x / quantum x)) \<le> of_int (2 ^ nat 53)"
    by (simp only: of_int_le_iff)
  also have "of_int (2 ^ nat 53) = pow2 53" by (rule pow2_of_int [symmetric]) simp
  finally have "nearest x \<le> pow2 53 * quantum x"
    by (simp add: nearest_def)
  also have "pow2 53 * quantum x = pow2 (?e + 1)"
    unfolding q pow2_mult by (rule arg_cong [where f = pow2]) simp
  finally show ?thesis .
qed

lemma nearest_lower:
  assumes "0 < x" and "- 1022 \<le> expo x"
  shows "pow2 (expo x) \<le> nearest x"
proof -
  have q: "quantum x = pow2 (expo x - 52)" using assms(2) by (simp add: quantum_def max_def)
  have "pow2 (expo x) \<le> x" using expo_bounds(1) [of x] assms by simp
  then have "pow2 (expo x) / quantum x \<le> x / quantum x"
    by (simp add: divide_right_mono)
  moreover have "pow2 (expo x) / quantum x = pow2 52"
    unfolding q pow2_div by (rule arg_cong [where f = pow2]) simp
  moreover have "pow2 52 = of_int (2 ^ nat 52)" by (rule pow2_of_int) simp
  ultimately have "of_int (2 ^ nat 52) \<le> x / quantum x" by simp
  then have "2 ^ nat 52 \<le> rne (x / quantum x)" by (rule rne_ge_int)
  then have "real_of_int (2 ^ nat 52) \<le> of_int (rne (x / quantum x))"
    by (simp only: of_int_le_iff)
  moreover have "of_int (2 ^ nat 52) = pow2 52" by (rule pow2_of_int [symmetric]) simp
  ultimately have "pow2 52 * quantum x \<le> nearest x"
    by (simp add: nearest_def)
  moreover have "pow2 52 * quantum x = pow2 (expo x)"
    unfolding q pow2_mult by (rule arg_cong [where f = pow2]) simp
  ultimately show ?thesis by simp
qed

lemma nearest_mono_pos:
  assumes "0 < x" and "x \<le> y"
  shows "nearest x \<le> nearest y"
proof (cases "max (expo x) (- 1022) = max (expo y) (- 1022)")
  case True
  then have q: "quantum x = quantum y" by (simp add: quantum_def)
  have "x / quantum y \<le> y / quantum y" using assms(2) by (simp add: divide_right_mono)
  then have "rne (x / quantum y) \<le> rne (y / quantum y)" by (rule rne_mono)
  then show ?thesis by (simp add: nearest_def q)
next
  case False
  have le: "expo x \<le> expo y" using expo_mono [of x y] assms by simp
  then have ey: "- 1022 \<le> expo y" and lt: "max (expo x) (- 1022) + 1 \<le> expo y"
    using False by (auto simp: max_def split: if_splits)
  have "nearest x \<le> pow2 (max (expo x) (- 1022) + 1)" using assms(1) by (rule nearest_upper)
  also have "\<dots> \<le> pow2 (expo y)" using lt by simp
  also have "\<dots> \<le> nearest y" using assms ey by (intro nearest_lower) simp_all
  finally show ?thesis .
qed

lemma nearest_mono:
  assumes "x \<le> y"
  shows "nearest x \<le> nearest y"
proof -
  consider "0 < x" | "x \<le> 0" "0 \<le> y" | "y < 0" by linarith
  then show ?thesis
  proof cases
    case 1
    then show ?thesis using assms by (rule nearest_mono_pos)
  next
    case 2
    have "0 \<le> nearest (- x)" using 2(1) by (intro nearest_nonneg) simp
    then have "nearest x \<le> 0" by (simp add: nearest_minus)
    moreover have "0 \<le> nearest y" using 2(2) by (rule nearest_nonneg)
    ultimately show ?thesis by linarith
  next
    case 3
    have "nearest (- y) \<le> nearest (- x)" using 3 assms by (intro nearest_mono_pos) simp_all
    then show ?thesis by (simp add: nearest_minus)
  qed
qed


text \<open>Values on the grid: an integer below \<open>2^53\<close> times a power of two.\<close>

lemma pow2_int_cases:
  assumes "0 \<le> k"
  shows "\<exists>m::int. pow2 k = of_int m"
  using pow2_of_int [OF assms] by blast

lemma nearest_grid:
  assumes x: "x = of_int m * pow2 e" and m: "\<bar>m\<bar> < 2 ^ 53" and e: "- 1074 \<le> e"
  shows "nearest x = x"
proof (cases "m = 0")
  case True
  then show ?thesis using x by simp
next
  case False
  then have m1: "1 \<le> \<bar>real_of_int m\<bar>" by (simp flip: of_int_abs)
  have nz: "x \<noteq> 0" using False x by simp
  have ax: "\<bar>x\<bar> = \<bar>real_of_int m\<bar> * pow2 e" using x by (simp add: abs_mult)
  have "real_of_int \<bar>m\<bar> < of_int (2 ^ 53)" using m by (simp only: of_int_less_iff)
  then have m2: "\<bar>real_of_int m\<bar> < pow2 53" using pow2_of_int [of 53] by simp
  have "\<bar>x\<bar> < pow2 53 * pow2 e" unfolding ax using m2 by (simp add: mult_strict_right_mono)
  then have "\<bar>x\<bar> < pow2 (e + 53)" by (simp add: pow2_mult add.commute)
  then have "pow2 (expo x) < pow2 (e + 53)" using expo_bounds(1) [OF nz] by linarith
  then have ex: "expo x < e + 53" by simp
  define d where "d = e - (max (expo x) (- 1022) - 52)"
  have d0: "0 \<le> d" using ex e by (simp add: d_def max_def)
  have "x / quantum x = of_int m * (pow2 e / pow2 (max (expo x) (- 1022) - 52))"
    by (simp add: x quantum_def)
  also have "pow2 e / pow2 (max (expo x) (- 1022) - 52) = pow2 d"
    by (simp add: pow2_div d_def)
  also have "pow2 d = of_int (2 ^ nat d)" using d0 by (rule pow2_of_int)
  finally have "x / quantum x = of_int (m * 2 ^ nat d)" by simp
  then show ?thesis by (rule nearest_exact)
qed

lemma nearest_of_int:
  assumes "\<bar>k\<bar> \<le> 2 ^ 53"
  shows "nearest (of_int k) = of_int k"
proof (cases "\<bar>k\<bar> = 2 ^ 53")
  case True
  then have "k = 2 ^ 53 \<or> k = - (2 ^ 53)" by linarith
  then have "real_of_int k = of_int (sgn k) * pow2 53"
    using pow2_of_int [of 53] by auto
  then show ?thesis by (rule nearest_grid) (simp_all add: abs_sgn_eq)
next
  case False
  have "real_of_int k = of_int k * pow2 0" by (simp add: pow2_def)
  moreover have "\<bar>k\<bar> < 2 ^ 53" using assms False by linarith
  ultimately show ?thesis by (rule nearest_grid) simp
qed

lemma nearest_1 [simp]: "nearest 1 = 1"
  using nearest_of_int [of 1] by simp

lemma nearest_numeral:
  "numeral n \<le> (2::int) ^ 53 \<Longrightarrow> nearest (numeral n) = numeral n"
  using nearest_of_int [of "numeral n"] by simp

lemma pow2_1024_gt: "2 ^ 53 < pow2 1024"
proof -
  have "(2::real) ^ 53 = pow2 53" using pow2_nat [of 53] by simp
  also have "\<dots> < pow2 1024" by simp
  finally show ?thesis .
qed

lemma round64_of_int:
  assumes "\<bar>k\<bar> \<le> 2 ^ 53"
  shows "round64 (of_int k) = Fin (of_int k)"
proof -
  have "real_of_int \<bar>k\<bar> \<le> of_int (2 ^ 53)" using assms by (simp only: of_int_le_iff)
  then have "\<bar>real_of_int k\<bar> \<le> 2 ^ 53" by simp
  then have "\<bar>real_of_int k\<bar> < pow2 1024" using pow2_1024_gt by linarith
  then show ?thesis by (simp add: round64_def nearest_of_int [OF assms])
qed

lemma round64_mono:
  assumes "x \<le> y"
  shows "fle (round64 x) (round64 y)"
  using nearest_mono [OF assms] pow2_pos [of 1024]
  by (auto simp: round64_def Let_def simp del: pow2_pos)

lemma round64_cases:
  obtains (fin) "round64 x = Fin (nearest x)" "\<bar>nearest x\<bar> < pow2 1024"
  | (pinf) "round64 x = PInf" "pow2 1024 \<le> nearest x"
  | (ninf) "round64 x = NInf" "nearest x \<le> - pow2 1024"
proof (cases "pow2 1024 \<le> \<bar>nearest x\<bar>")
  case False
  then show ?thesis using fin by (simp add: round64_def Let_def)
next
  case True
  show ?thesis
  proof (cases "0 < nearest x")
    case pos: True
    then show ?thesis using True pinf by (simp add: round64_def Let_def)
  next
    case neg: False
    then have "nearest x \<le> - pow2 1024" using True by linarith
    then show ?thesis using True neg ninf by (simp add: round64_def Let_def)
  qed
qed

lemma round64_not_NaN [simp]: "round64 x \<noteq> NaN"
  by (simp add: round64_def Let_def)

text \<open>
  Go's \<open>int\<close> and \<open>int64\<close> are both taken as 64-bit two's complement integers and are
  carried by \<open>int\<close>; where the program computes with them the wrap-around is written
  out.
\<close>

record Action =
  At :: int
  Pos :: int
  Slope :: float64
  Intensity :: int
  Speed :: float64

text \<open>
  \<open>Actions\<close> is a slice: \<open>None\<close> is the nil slice that \<open>json.Unmarshal\<close> leaves when the
  document has no \<open>actions\<close> member (or has \<open>null\<close> there).
\<close>

record Script =
  Version :: string
  Inverted :: bool
  Range :: int
  Actions :: "Action list option"
  AvarageSpeed :: int

definition Script_zero :: Script where
  "Script_zero = \<lparr>Version = [], Inverted = False, Range = 0, Actions = None, AvarageSpeed = 0\<rparr>"

record InteractiveHeatmapSpeedGenerator =
  sceneDurationMilli :: int
  InteractiveSpeed :: int
  Funscript :: Script
  FunscriptPath :: string
  HeatmapPath :: string
  Width :: int
  Height :: int
  NumSegments :: int

text \<open>
  The errors \<open>Generate\<close> can return. \<open>OSError\<close> and \<open>JSONError\<close> are the errors of
  \<open>os.ReadFile\<close>, \<open>os.Create\<close>, \<open>png.Encode\<close> and \<open>json.Unmarshal\<close>, passed through
  unchanged; the other two are made with \<open>fmt.Errorf\<close> in this file.
\<close>

datatype error =
    OSError string
  | JSONError string
  | ActionsListMissing string
  | NoValidActions

text \<open>The one message this file sends to the logger.\<close>

datatype log_entry = WarnInvalidTimestamp int string

section \<open>\<open>LoadFunscriptData\<close>\<close>

text \<open>
  The file system and the JSON decoder are outside the file: \<open>os.ReadFile\<close> and
  \<open>json.Unmarshal\<close> are parameters, each returning its error or its value.
\<close>

record loader =
  ReadFile :: "string \<Rightarrow> error + string"
  Unmarshal :: "string \<Rightarrow> error + Script"

definition isValid :: "InteractiveHeatmapSpeedGenerator \<Rightarrow> int \<Rightarrow> bool" where
  "isValid g x \<longleftrightarrow> x \<ge> 0 \<and> x < sceneDurationMilli g"

text \<open>
  One iteration of the trimming loop, at index \<open>j\<close> of the range. The state is the
  backing array, the write index \<open>i\<close>, \<open>loggedBadTimestamp\<close> and the log. The element
  is read from the array when the iteration starts, after the writes of the earlier
  iterations.
\<close>

fun trim_step ::
  "InteractiveHeatmapSpeedGenerator \<Rightarrow> string \<Rightarrow>
   Action list \<times> nat \<times> bool \<times> log_entry list \<Rightarrow> nat \<Rightarrow>
   Action list \<times> nat \<times> bool \<times> log_entry list" where
  "trim_step g path (arr, i, logged, lg) j =
     (let x = arr ! j in
      if isValid g (At x) then (arr[i := x], i + 1, logged, lg)
      else if \<not> logged then (arr, i, True, lg @ [WarnInvalidTimestamp (At x) path])
      else (arr, i, logged, lg))"

definition trim_loop ::
  "InteractiveHeatmapSpeedGenerator \<Rightarrow> string \<Rightarrow> Action list \<Rightarrow>
   Action list \<times> nat \<times> bool \<times> log_entry list" where
  "trim_loop g path arr = foldl (trim_step g path) (arr, 0, False, []) [0..<length arr]"

text \<open>
  \<open>sort.SliceStable\<close> with the comparison \<open>Actions[i].At < Actions[j].At\<close> is the stable
  sort by \<open>At\<close>, here \<open>sort_key At\<close>.
\<close>

definition LoadFunscriptData ::
  "loader \<Rightarrow> InteractiveHeatmapSpeedGenerator \<Rightarrow> string \<Rightarrow> (error + Script) \<times> log_entry list" where
  "LoadFunscriptData io g path =
     (case ReadFile io path of
        Inl err \<Rightarrow> (Inl err, [])
      | Inr data \<Rightarrow>
          (case Unmarshal io data of
             Inl err \<Rightarrow> (Inl err, [])
           | Inr funscript \<Rightarrow>
               (case Actions funscript of
                  None \<Rightarrow> (Inl (ActionsListMissing path), [])
                | Some acts \<Rightarrow>
                    (case trim_loop g path (sort_key At acts) of
                       (arr, i, logged, lg) \<Rightarrow>
                         (Inr (funscript\<lparr>Actions := Some (take i arr)\<rparr>), lg)))))"

section \<open>The trimming loop\<close>

lemma trim_step_inv:
  assumes "j < length arr0" "length arr = length arr0" "i \<le> j"
    and "take i arr = filter (\<lambda>a. isValid g (At a)) (take j arr0)"
    and "drop j arr = drop j arr0"
    and "trim_step g path (arr, i, logged, lg) j = (arr', i', logged', lg')"
  shows "length arr' = length arr0 \<and> i' \<le> Suc j
    \<and> take i' arr' = filter (\<lambda>a. isValid g (At a)) (take (Suc j) arr0)
    \<and> drop (Suc j) arr' = drop (Suc j) arr0"
proof -
  have rd: "arr ! j = arr0 ! j"
    using assms(1,2,5) by (metis Cons_nth_drop_Suc nth_via_drop)
  have tk: "take (Suc j) arr0 = take j arr0 @ [arr0 ! j]"
    using assms(1) by (simp add: take_Suc_conv_app_nth)
  have dr: "drop (Suc j) arr = drop (Suc j) arr0"
    using assms(5) by (metis drop_Suc tl_drop)
  show ?thesis
  proof (cases "isValid g (At (arr0 ! j))")
    case True
    have i_lt: "i < length arr" using assms(1,2,3) by simp
    have "take (Suc i) (arr[i := arr0 ! j]) = take i arr @ [arr0 ! j]"
      using i_lt by (simp add: take_Suc_conv_app_nth)
    moreover have "drop (Suc j) (arr[i := arr0 ! j]) = drop (Suc j) arr"
      using assms(3) by simp
    ultimately show ?thesis
      using True assms rd tk dr by (auto simp: Let_def)
  next
    case False
    then show ?thesis
      using assms rd tk dr by (auto simp: Let_def split: if_splits)
  qed
qed

lemma trim_fold_inv:
  assumes "n \<le> length arr0"
    and "foldl (trim_step g path) (arr0, 0, False, []) [0..<n] = (arr, i, logged, lg)"
  shows "length arr = length arr0 \<and> i \<le> n
    \<and> take i arr = filter (\<lambda>a. isValid g (At a)) (take n arr0)
    \<and> drop n arr = drop n arr0"
  using assms
proof (induction n arbitrary: arr i logged lg)
  case 0
  then show ?case by simp
next
  case (Suc n)
  obtain arr1 i1 logged1 lg1 where
    st: "foldl (trim_step g path) (arr0, 0, False, []) [0..<n] = (arr1, i1, logged1, lg1)"
    by (metis prod_cases4)
  have ih: "length arr1 = length arr0 \<and> i1 \<le> n
      \<and> take i1 arr1 = filter (\<lambda>a. isValid g (At a)) (take n arr0)
      \<and> drop n arr1 = drop n arr0"
    using Suc.IH [OF _ st] Suc.prems(1) by simp
  have step: "trim_step g path (arr1, i1, logged1, lg1) n = (arr, i, logged, lg)"
    using Suc.prems(2) st by simp
  show ?case
    using trim_step_inv [of n arr0 arr1 i1 g path logged1 lg1 arr i logged lg] ih step Suc.prems(1)
    by simp
qed

lemma trim_loop_filter:
  assumes "trim_loop g path arr0 = (arr, i, logged, lg)"
  shows "take i arr = filter (\<lambda>a. isValid g (At a)) arr0"
  using trim_fold_inv [of "length arr0" arr0 g path arr i logged lg] assms
  by (simp add: trim_loop_def)

lemma LoadFunscriptData_Actions:
  assumes "ReadFile io path = Inr data" "Unmarshal io data = Inr doc" "Actions doc = Some acts"
  shows "\<exists>lg. LoadFunscriptData io g path =
    (Inr (doc\<lparr>Actions := Some (filter (\<lambda>a. isValid g (At a)) (sort_key At acts))\<rparr>), lg)"
proof -
  obtain arr i logged lg where
    t: "trim_loop g path (sort_key At acts) = (arr, i, logged, lg)"
    by (metis prod_cases4)
  show ?thesis
    using assms t trim_loop_filter [OF t] by (simp add: LoadFunscriptData_def)
qed

section \<open>Validation: sorted and trimmed\<close>

text \<open>An action as decoded from a JSON object with the members \<open>at\<close> and \<open>pos\<close> only.\<close>

definition decoded :: "int \<Rightarrow> int \<Rightarrow> Action" where
  "decoded t p = \<lparr>At = t, Pos = p, Slope = Fin 0, Intensity = 0, Speed = Fin 0\<rparr>"

definition doc_of :: "Action list \<Rightarrow> Script" where
  "doc_of acts = Script_zero\<lparr>Actions := Some acts\<rparr>"

definition gen_of :: "int \<Rightarrow> InteractiveHeatmapSpeedGenerator" where
  "gen_of d = \<lparr>sceneDurationMilli = d, InteractiveSpeed = 0, Funscript = Script_zero,
     FunscriptPath = ''a.funscript'', HeatmapPath = ''a.png'', Width = 1280, Height = 60,
     NumSegments = 600\<rparr>"

definition loader_of :: "Script \<Rightarrow> loader" where
  "loader_of doc = \<lparr>ReadFile = (\<lambda>p. Inr ''{}''), Unmarshal = (\<lambda>d. Inr doc)\<rparr>"

lemma filter_insort_key_eq:
  "filter (\<lambda>a. f a = k) (insort_key f x xs) =
     (if f x = k then x # filter (\<lambda>a. f a = k) xs else filter (\<lambda>a. f a = k) xs)"
  if "sorted (map f xs)"
  using that by (induction xs) (auto simp: order.antisym)

lemma filter_sort_key_eq:
  "filter (\<lambda>a. f a = k) (sort_key f xs) = filter (\<lambda>a. f a = k) xs"
  by (induction xs) (simp_all add: filter_insort_key_eq)

text \<open>
  Claim C2. When the file is read and decoded and has an \<open>actions\<close> list,
  \<open>LoadFunscriptData\<close> returns a script whose actions are sorted non-decreasingly by
  \<open>At\<close>; the actions with any one timestamp are those of the input with that timestamp,
  in their input order, when the timestamp is in \<open>[0, sceneDurationMilli)\<close>, and none
  otherwise; the result is the sorted input with the out-of-range actions dropped and
  the others kept in order. Timestamps \<open>[-5, 10, 3000, 7000]\<close> with a duration of 5000
  leave \<open>[10, 3000]\<close>.
\<close>

theorem LoadFunscriptData_sorted_trimmed:
  assumes "ReadFile io path = Inr data" and "Unmarshal io data = Inr doc"
    and "Actions doc = Some acts"
  shows "\<exists>s lg res. LoadFunscriptData io g path = (Inr s, lg) \<and> Actions s = Some res
    \<and> sorted (map At res)
    \<and> (\<forall>k. filter (\<lambda>a. At a = k) res =
          (if 0 \<le> k \<and> k < sceneDurationMilli g then filter (\<lambda>a. At a = k) acts else []))
    \<and> mset res = filter_mset (\<lambda>a. 0 \<le> At a \<and> At a < sceneDurationMilli g) (mset acts)
    \<and> res = filter (\<lambda>a. 0 \<le> At a \<and> At a < sceneDurationMilli g) (sort_key At acts)
    \<and> (map At acts = [-5, 10, 3000, 7000] \<and> sceneDurationMilli g = 5000
         \<longrightarrow> map At res = [10, 3000])"
proof -
  let ?v = "\<lambda>a. 0 \<le> At a \<and> At a < sceneDurationMilli g"
  let ?res = "filter ?v (sort_key At acts)"
  obtain lg where
    ld: "LoadFunscriptData io g path = (Inr (doc\<lparr>Actions := Some ?res\<rparr>), lg)"
    using LoadFunscriptData_Actions [OF assms, of g] by (auto simp: isValid_def)
  have srt: "sorted (map At ?res)"
    by (simp add: sorted_filter)
  have stab: "filter (\<lambda>a. At a = k) ?res =
      (if 0 \<le> k \<and> k < sceneDurationMilli g then filter (\<lambda>a. At a = k) acts else [])" for k
  proof -
    have "filter (\<lambda>a. At a = k) ?res = filter ?v (filter (\<lambda>a. At a = k) (sort_key At acts))"
      by (simp add: conj_commute)
    also have "\<dots> = filter ?v (filter (\<lambda>a. At a = k) acts)"
      by (simp only: filter_sort_key_eq)
    also have "\<dots> = (if 0 \<le> k \<and> k < sceneDurationMilli g then filter (\<lambda>a. At a = k) acts else [])"
      by (auto intro: filter_cong simp: filter_empty_conv)
    finally show ?thesis .
  qed
  have ms: "mset ?res = filter_mset ?v (mset acts)"
    by simp
  have ex: "map At ?res = [10, 3000]"
    if ts: "map At acts = [-5, 10, 3000, 7000]" and dur: "sceneDurationMilli g = 5000"
  proof -
    obtain a b c d where acts: "acts = [a, b, c, d]"
      and ats: "At a = -5" "At b = 10" "At c = 3000" "At d = 7000"
      using ts by (auto simp: map_eq_Cons_conv)
    show ?thesis using ats dur by (simp add: acts)
  qed
  show ?thesis
    using ld srt stab ms ex by (intro exI [of _ "doc\<lparr>Actions := Some ?res\<rparr>"] exI [of _ lg] exI [of _ ?res]) simp
qed

theorem LoadFunscriptData_sorted_trimmed_witness:
  "ReadFile (loader_of (doc_of [decoded 7000 3, decoded 10 1, decoded (-5) 0, decoded 3000 2]))
      ''a.funscript'' = Inr ''{}''
   \<and> Actions (doc_of [decoded 7000 3, decoded 10 1, decoded (-5) 0, decoded 3000 2]) \<noteq> None
   \<and> (\<exists>s lg. LoadFunscriptData
          (loader_of (doc_of [decoded 7000 3, decoded 10 1, decoded (-5) 0, decoded 3000 2]))
          (gen_of 5000) ''a.funscript'' = (Inr s, lg)
        \<and> Actions s = Some [decoded 10 1, decoded 3000 2])"
  using LoadFunscriptData_sorted_trimmed [of
      "loader_of (doc_of [decoded 7000 3, decoded 10 1, decoded (-5) 0, decoded 3000 2])"
      "''a.funscript''" "''{}''"
      "doc_of [decoded 7000 3, decoded 10 1, decoded (-5) 0, decoded 3000 2]"
      "[decoded 7000 3, decoded 10 1, decoded (-5) 0, decoded 3000 2]" "gen_of 5000"]
  by (auto simp: loader_of_def doc_of_def gen_of_def decoded_def Script_zero_def)

section \<open>\<open>UpdateIntensityAndSpeed\<close>\<close>

text \<open>
  One iteration of the loop, at index \<open>i\<close>, on the slice as the earlier iterations left
  it. The subtractions are integer subtractions and wrap; the constants \<open>1\<close>, \<open>2\<close>, \<open>20\<close>
  and \<open>1000\<close> are exact in \<open>float64\<close>.
\<close>

definition metrics_step :: "Action list \<Rightarrow> nat \<Rightarrow> Action list" where
  "metrics_step acts i =
     (if i = 0 then acts
      else
        let t1 = At (acts ! i);
            t2 = At (acts ! (i - 1));
            p1 = Pos (acts ! i);
            p2 = Pos (acts ! (i - 1));
            slope = fmin (fmax (fdiv (Fin 1)
                      (fdiv (fmul (Fin 2) (float64_of_int (wrap64 (t1 - t2)))) (Fin 1000)))
                      (Fin 0)) (Fin 20);
            intensity = int64_of_float64 (fmul slope (fabs (float64_of_int (wrap64 (p1 - p2)))));
            speed = fmul (fdiv (fabs (float64_of_int (wrap64 (p1 - p2))))
                      (float64_of_int (wrap64 (t1 - t2)))) (Fin 1000)
        in acts[i := (acts ! i)\<lparr>Slope := slope, Intensity := intensity, Speed := speed\<rparr>])"

definition UpdateIntensityAndSpeed :: "Script \<Rightarrow> Script" where
  "UpdateIntensityAndSpeed funscript =
     (case Actions funscript of
        None \<Rightarrow> funscript
      | Some acts \<Rightarrow> funscript\<lparr>Actions := Some (foldl metrics_step acts [0..<length acts])\<rparr>)"

text \<open>The three values the loop stores at index \<open>i\<close>, from the timestamps and positions
  of the actions at \<open>i - 1\<close> and \<open>i\<close>.\<close>

definition slope_of :: "Action \<Rightarrow> Action \<Rightarrow> float64" where
  "slope_of prev cur = fmin (fmax (fdiv (Fin 1)
       (fdiv (fmul (Fin 2) (float64_of_int (wrap64 (At cur - At prev)))) (Fin 1000)))
       (Fin 0)) (Fin 20)"

definition intensity_of :: "Action \<Rightarrow> Action \<Rightarrow> int" where
  "intensity_of prev cur =
     int64_of_float64 (fmul (slope_of prev cur) (fabs (float64_of_int (wrap64 (Pos cur - Pos prev)))))"

definition speed_of :: "Action \<Rightarrow> Action \<Rightarrow> float64" where
  "speed_of prev cur = fmul (fdiv (fabs (float64_of_int (wrap64 (Pos cur - Pos prev))))
       (float64_of_int (wrap64 (At cur - At prev)))) (Fin 1000)"

definition annotated :: "Action list \<Rightarrow> nat \<Rightarrow> nat \<Rightarrow> Action" where
  "annotated acts n j =
     (if 0 < j \<and> j < n
      then (acts ! j)\<lparr>Slope := slope_of (acts ! (j - 1)) (acts ! j),
                      Intensity := intensity_of (acts ! (j - 1)) (acts ! j),
                      Speed := speed_of (acts ! (j - 1)) (acts ! j)\<rparr>
      else acts ! j)"

lemma annotated_At [simp]: "At (annotated acts n j) = At (acts ! j)"
  and annotated_Pos [simp]: "Pos (annotated acts n j) = Pos (acts ! j)"
  by (simp_all add: annotated_def)

subsection \<open>The loop annotates every action but the first\<close>

lemma metrics_step_eq:
  "0 < i \<Longrightarrow> metrics_step st i =
     st[i := (st ! i)\<lparr>Slope := slope_of (st ! (i - 1)) (st ! i),
                        Intensity := intensity_of (st ! (i - 1)) (st ! i),
                        Speed := speed_of (st ! (i - 1)) (st ! i)\<rparr>]"
  by (simp add: metrics_step_def Let_def slope_of_def intensity_of_def speed_of_def)

lemma metrics_of_cong:
  assumes "At p = At p'" "Pos p = Pos p'" "At c = At c'" "Pos c = Pos c'"
  shows "slope_of p c = slope_of p' c'" "intensity_of p c = intensity_of p' c'"
    "speed_of p c = speed_of p' c'"
  using assms by (simp_all add: slope_of_def intensity_of_def speed_of_def)

lemma metrics_fold:
  "n \<le> length acts \<Longrightarrow>
   foldl metrics_step acts [0..<n] = map (annotated acts n) [0..<length acts]"
proof (induction n)
  case 0
  then show ?case by (simp add: annotated_def map_nth)
next
  case (Suc n)
  let ?st = "map (annotated acts n) [0..<length acts]"
  have st: "foldl metrics_step acts [0..<n] = ?st" using Suc by simp
  have n: "n < length acts" using Suc.prems by simp
  have "metrics_step ?st n = map (annotated acts (Suc n)) [0..<length acts]"
  proof (cases "n = 0")
    case True
    then show ?thesis by (simp add: metrics_step_def annotated_def)
  next
    case False
    have cur: "?st ! n = acts ! n" using n by (simp add: annotated_def)
    have prev: "At (?st ! (n - 1)) = At (acts ! (n - 1))" "Pos (?st ! (n - 1)) = Pos (acts ! (n - 1))"
      using n by simp_all
    have new: "(?st ! n)\<lparr>Slope := slope_of (?st ! (n - 1)) (?st ! n),
                        Intensity := intensity_of (?st ! (n - 1)) (?st ! n),
                        Speed := speed_of (?st ! (n - 1)) (?st ! n)\<rparr> = annotated acts (Suc n) n"
      unfolding cur metrics_of_cong [OF prev refl refl]
      using False by (simp add: annotated_def)
    have "metrics_step ?st n = ?st[n := annotated acts (Suc n) n]"
      using False by (simp only: metrics_step_eq new)
    also have "\<dots> = map (annotated acts (Suc n)) [0..<length acts]"
    proof (rule nth_equalityI)
      show "length (?st[n := annotated acts (Suc n) n]) = length (map (annotated acts (Suc n)) [0..<length acts])"
        by simp
    next
      fix j assume "j < length (?st[n := annotated acts (Suc n) n])"
      then have j: "j < length acts" by simp
      show "?st[n := annotated acts (Suc n) n] ! j = map (annotated acts (Suc n)) [0..<length acts] ! j"
      proof (cases "j = n")
        case True
        then show ?thesis using n by simp
      next
        case False
        then have "annotated acts n j = annotated acts (Suc n) j"
          by (auto simp: annotated_def)
        then show ?thesis using False j by simp
      qed
    qed
    finally show ?thesis .
  qed
  then show ?case using st by simp
qed


lemma wrap64_id: "- (2 ^ 63) \<le> k \<Longrightarrow> k < 2 ^ 63 \<Longrightarrow> wrap64 k = k"
  by (simp add: wrap64_def)

lemma float64_of_int_exact: "\<bar>k\<bar> \<le> 2 ^ 53 \<Longrightarrow> float64_of_int k = Fin (of_int k)"
  by (simp add: float64_of_int_def round64_of_int)

lemma fdiv_not_NaN: "x \<noteq> NaN \<Longrightarrow> b \<noteq> 0 \<Longrightarrow> fdiv x (Fin b) \<noteq> NaN"
  by (cases x) simp_all

lemma fdiv_one_not_NaN: "y \<noteq> NaN \<Longrightarrow> fdiv (Fin 1) y \<noteq> NaN"
  by (cases y) simp_all

lemma fmul_Fin_not_NaN: "fmul (Fin a) (Fin b) \<noteq> NaN"
  by simp

lemma clamp_0_20:
  assumes "x \<noteq> NaN"
  shows "\<exists>s. fmin (fmax x (Fin 0)) (Fin 20) = Fin s \<and> 0 \<le> s \<and> s \<le> 20"
  using assms by (cases x) (auto simp: fmin_def fmax_def)

lemma float64_of_int_cases: "float64_of_int k \<noteq> NaN"
  by (simp add: float64_of_int_def)

lemma slope_of_range: "\<exists>s. slope_of prev cur = Fin s \<and> 0 \<le> s \<and> s \<le> 20"
proof -
  obtain d where d: "float64_of_int (wrap64 (At cur - At prev)) = d" "d \<noteq> NaN"
    using float64_of_int_cases by blast
  have "fmul (Fin 2) d \<noteq> NaN" using d(2) by (cases d) simp_all
  then have "fdiv (fmul (Fin 2) d) (Fin 1000) \<noteq> NaN" by (rule fdiv_not_NaN) simp
  then have "fdiv (Fin 1) (fdiv (fmul (Fin 2) d) (Fin 1000)) \<noteq> NaN" by (rule fdiv_one_not_NaN)
  then show ?thesis unfolding slope_of_def d(1) by (rule clamp_0_20)
qed

lemma nearest_20_2_53: "nearest (20 * 2 ^ 53) = 20 * 2 ^ 53"
proof -
  have "(20::real) * 2 ^ 53 = of_int 5 * pow2 55" by (simp add: pow2_def)
  then show ?thesis by (rule nearest_grid) simp_all
qed

lemma intensity_floor:
  assumes "0 \<le> s" "s \<le> 20" "0 \<le> k" "k \<le> 2 ^ 53"
  shows "\<exists>r. fmul (Fin s) (float64_of_int k) = Fin r \<and> 0 \<le> r
    \<and> int64_of_float64 (fmul (Fin s) (float64_of_int k)) = \<lfloor>r\<rfloor>"
proof -
  have fk: "float64_of_int k = Fin (of_int k)" using assms(3,4) by (intro float64_of_int_exact) simp
  have rk: "real_of_int k \<le> 2 ^ 53" using assms(4)
    by (metis of_int_le_iff of_int_numeral of_int_power)
  have "s * of_int k \<le> 20 * 2 ^ 53"
    using assms rk by (intro mult_mono) simp_all
  then have up: "nearest (s * of_int k) \<le> 20 * 2 ^ 53"
    using nearest_mono [of "s * of_int k" "20 * 2 ^ 53"] by (simp only: nearest_20_2_53)
  have lo: "0 \<le> nearest (s * of_int k)" using assms by (intro nearest_nonneg) simp
  have "(20::real) * 2 ^ 53 < 2 ^ 63" by simp
  then have lt63: "nearest (s * of_int k) < 2 ^ 63" using up by linarith
  have "(2::real) ^ 63 = pow2 63" using pow2_nat [of 63] by simp
  also have "\<dots> < pow2 1024" by simp
  finally have "\<bar>nearest (s * of_int k)\<bar> < pow2 1024" using lt63 lo by linarith
  then have r: "fmul (Fin s) (float64_of_int k) = Fin (nearest (s * of_int k))"
    by (simp add: fk round64_def)
  have fl: "\<lfloor>nearest (s * of_int k)\<rfloor> < 2 ^ 63" using lt63 by (simp add: floor_less_iff)
  have fl0: "0 \<le> \<lfloor>nearest (s * of_int k)\<rfloor>" using lo by simp
  have "trunc (nearest (s * of_int k)) = \<lfloor>nearest (s * of_int k)\<rfloor>"
    using lo by (simp add: trunc_def)
  then show ?thesis
    using r lo fl fl0 by (simp add: int64_of_float64_def)
qed

lemma fabs_float64_of_int:
  assumes "\<bar>k\<bar> \<le> 2 ^ 53"
  shows "fabs (float64_of_int k) = float64_of_int \<bar>k\<bar>"
  using assms by (simp add: float64_of_int_exact)


text \<open>The equations that evaluate the \<open>float64\<close> operations on numerals.\<close>

lemmas float_eval = float64_of_int_def round64_def nearest_def quantum_def expo_def
  compute_floorlog rne_def pow2_def fmin_def fmax_def int64_of_float64_def trunc_def wrap64_def

text \<open>
  Claim C3. For a non-empty action sequence whose timestamps are validated (in
  \<open>[0, d)\<close> for a duration \<open>d\<close> that is an \<open>int64\<close>) and whose positions are at most
  \<open>2^52\<close> in absolute value, \<open>UpdateIntensityAndSpeed\<close> returns (it has no failing branch)
  and leaves the action at index 0 as it was, so with slope, intensity and speed 0 when
  they were 0, as they are in a decoded action. At every index \<open>i > 0\<close>, with
  \<open>\<Delta>t = at[i] - at[i-1]\<close> and \<open>\<Delta>p = |pos[i] - pos[i-1]|\<close>, the slope is
  \<open>min (max (1 / (2 * \<Delta>t / 1000)) 0) 20\<close>, the intensity is the floor of the finite product
  \<open>slope * \<Delta>p\<close>, and the speed is \<open>\<Delta>p / \<Delta>t * 1000\<close>, all in \<open>float64\<close> arithmetic.
  Timestamps and positions are unchanged, and so is the rest of the script.
\<close>

theorem UpdateIntensityAndSpeed_metrics:
  assumes acts: "Actions funscript = Some acts" and ne: "acts \<noteq> []"
    and valid: "\<forall>a\<in>set acts. 0 \<le> At a \<and> At a < d" and d: "d \<le> 2 ^ 63"
    and pos: "\<forall>a\<in>set acts. \<bar>Pos a\<bar> \<le> 2 ^ 52"
  shows "\<exists>res. UpdateIntensityAndSpeed funscript = funscript\<lparr>Actions := Some res\<rparr>
    \<and> length res = length acts
    \<and> res ! 0 = acts ! 0
    \<and> (Slope (acts ! 0) = Fin 0 \<and> Intensity (acts ! 0) = 0 \<and> Speed (acts ! 0) = Fin 0
         \<longrightarrow> Slope (res ! 0) = Fin 0 \<and> Intensity (res ! 0) = 0 \<and> Speed (res ! 0) = Fin 0)
    \<and> (\<forall>i. 0 < i \<and> i < length acts \<longrightarrow>
         (\<exists>r. Slope (res ! i) =
                fmin (fmax (fdiv (Fin 1)
                  (fdiv (fmul (Fin 2) (float64_of_int (At (acts ! i) - At (acts ! (i - 1)))))
                    (Fin 1000))) (Fin 0)) (Fin 20)
            \<and> fmul (Slope (res ! i)) (float64_of_int \<bar>Pos (acts ! i) - Pos (acts ! (i - 1))\<bar>) = Fin r
            \<and> Intensity (res ! i) = \<lfloor>r\<rfloor>
            \<and> Speed (res ! i) =
                fmul (fdiv (float64_of_int \<bar>Pos (acts ! i) - Pos (acts ! (i - 1))\<bar>)
                  (float64_of_int (At (acts ! i) - At (acts ! (i - 1))))) (Fin 1000)))
    \<and> (\<forall>i<length acts. At (res ! i) = At (acts ! i) \<and> Pos (res ! i) = Pos (acts ! i))"
proof -
  let ?res = "map (annotated acts (length acts)) [0..<length acts]"
  have upd: "UpdateIntensityAndSpeed funscript = funscript\<lparr>Actions := Some ?res\<rparr>"
    using acts metrics_fold [of "length acts" acts] by (simp add: UpdateIntensityAndSpeed_def)
  have len: "0 < length acts" using ne by simp
  have r0: "?res ! 0 = acts ! 0" using len by (simp add: annotated_def)
  have frame: "At (?res ! i) = At (acts ! i) \<and> Pos (?res ! i) = Pos (acts ! i)"
    if "i < length acts" for i using that by simp
  have main: "\<exists>r. Slope (?res ! i) =
                fmin (fmax (fdiv (Fin 1)
                  (fdiv (fmul (Fin 2) (float64_of_int (At (acts ! i) - At (acts ! (i - 1)))))
                    (Fin 1000))) (Fin 0)) (Fin 20)
            \<and> fmul (Slope (?res ! i)) (float64_of_int \<bar>Pos (acts ! i) - Pos (acts ! (i - 1))\<bar>) = Fin r
            \<and> Intensity (?res ! i) = \<lfloor>r\<rfloor>
            \<and> Speed (?res ! i) =
                fmul (fdiv (float64_of_int \<bar>Pos (acts ! i) - Pos (acts ! (i - 1))\<bar>)
                  (float64_of_int (At (acts ! i) - At (acts ! (i - 1))))) (Fin 1000)"
    if i: "0 < i" "i < length acts" for i
  proof -
    let ?p = "acts ! (i - 1)" and ?c = "acts ! i"
    have mem: "?p \<in> set acts" "?c \<in> set acts" using i by simp_all
    have at: "0 \<le> At ?p" "At ?p < 2 ^ 63" "0 \<le> At ?c" "At ?c < 2 ^ 63"
      using valid mem d by force+
    have wt: "wrap64 (At ?c - At ?p) = At ?c - At ?p"
      using at by (intro wrap64_id) linarith+
    have ps: "\<bar>Pos ?p\<bar> \<le> 2 ^ 52" "\<bar>Pos ?c\<bar> \<le> 2 ^ 52" using pos mem by blast+
    have dp: "\<bar>Pos ?c - Pos ?p\<bar> \<le> 2 ^ 53" using ps by simp
    have wp: "wrap64 (Pos ?c - Pos ?p) = Pos ?c - Pos ?p"
      using dp by (intro wrap64_id) (simp_all add: abs_le_iff)
    have ab: "fabs (float64_of_int (Pos ?c - Pos ?p)) = float64_of_int \<bar>Pos ?c - Pos ?p\<bar>"
      using dp by (rule fabs_float64_of_int)
    obtain s where s: "slope_of ?p ?c = Fin s" "0 \<le> s" "s \<le> 20"
      using slope_of_range by blast
    obtain r where r: "fmul (Fin s) (float64_of_int \<bar>Pos ?c - Pos ?p\<bar>) = Fin r"
      "int64_of_float64 (fmul (Fin s) (float64_of_int \<bar>Pos ?c - Pos ?p\<bar>)) = \<lfloor>r\<rfloor>"
      using intensity_floor [OF s(2,3), of "\<bar>Pos ?c - Pos ?p\<bar>"] dp by auto
    have sl: "Slope (?res ! i) = slope_of ?p ?c"
      and it: "Intensity (?res ! i) = intensity_of ?p ?c"
      and sp: "Speed (?res ! i) = speed_of ?p ?c"
      using i by (simp_all add: annotated_def)
    have "Slope (?res ! i) =
        fmin (fmax (fdiv (Fin 1)
          (fdiv (fmul (Fin 2) (float64_of_int (At ?c - At ?p))) (Fin 1000))) (Fin 0)) (Fin 20)"
      unfolding sl slope_of_def wt by (rule refl)
    moreover have "fmul (Slope (?res ! i)) (float64_of_int \<bar>Pos ?c - Pos ?p\<bar>) = Fin r"
      unfolding sl s(1) by (rule r(1))
    moreover have "Intensity (?res ! i) = \<lfloor>r\<rfloor>"
      unfolding it intensity_of_def wp ab s(1) by (rule r(2))
    moreover have "Speed (?res ! i) =
        fmul (fdiv (float64_of_int \<bar>Pos ?c - Pos ?p\<bar>) (float64_of_int (At ?c - At ?p))) (Fin 1000)"
      unfolding sp speed_of_def wp wt ab by (rule refl)
    ultimately show ?thesis by blast
  qed
  show ?thesis
    apply (rule exI [of _ ?res])
    apply (intro conjI allI impI)
    subgoal by (rule upd)
    subgoal by simp
    subgoal by (rule r0)
    subgoal by (simp only: r0)
    subgoal by (simp only: r0)
    subgoal by (simp only: r0)
    subgoal for i using main [of i] by blast
    subgoal for i using frame [of i] by blast
    subgoal for i using frame [of i] by blast
    done
qed

theorem UpdateIntensityAndSpeed_metrics_witness:
  "Actions (doc_of [decoded 0 0, decoded 1000 100, decoded 2000 0])
     = Some [decoded 0 0, decoded 1000 100, decoded 2000 0]
   \<and> (\<exists>res. UpdateIntensityAndSpeed (doc_of [decoded 0 0, decoded 1000 100, decoded 2000 0])
          = (doc_of [decoded 0 0, decoded 1000 100, decoded 2000 0])\<lparr>Actions := Some res\<rparr>
        \<and> length res = 3 \<and> res ! 0 = decoded 0 0
        \<and> Slope (res ! 1) = Fin (1 / 2) \<and> Intensity (res ! 1) = 50 \<and> Speed (res ! 1) = Fin 100)"
proof -
  let ?ex = "[decoded 0 0, decoded 1000 100, decoded 2000 0]"
  have h1: "Actions (doc_of ?ex) = Some ?ex" by (simp add: doc_of_def)
  have h2: "?ex \<noteq> []" by simp
  have h3: "\<forall>a\<in>set ?ex. 0 \<le> At a \<and> At a < 3000" by (simp add: decoded_def)
  have h4: "(3000::int) \<le> 2 ^ 63" by simp
  have h5: "\<forall>a\<in>set ?ex. \<bar>Pos a\<bar> \<le> 2 ^ 52" by (simp add: decoded_def)
  obtain res where res: "UpdateIntensityAndSpeed (doc_of ?ex) = (doc_of ?ex)\<lparr>Actions := Some res\<rparr>"
    "length res = length ?ex" "res ! 0 = ?ex ! 0"
    and m: "\<forall>i. 0 < i \<and> i < length ?ex \<longrightarrow>
         (\<exists>r. Slope (res ! i) =
                fmin (fmax (fdiv (Fin 1)
                  (fdiv (fmul (Fin 2) (float64_of_int (At (?ex ! i) - At (?ex ! (i - 1)))))
                    (Fin 1000))) (Fin 0)) (Fin 20)
            \<and> fmul (Slope (res ! i)) (float64_of_int \<bar>Pos (?ex ! i) - Pos (?ex ! (i - 1))\<bar>) = Fin r
            \<and> Intensity (res ! i) = \<lfloor>r\<rfloor>
            \<and> Speed (res ! i) =
                fmul (fdiv (float64_of_int \<bar>Pos (?ex ! i) - Pos (?ex ! (i - 1))\<bar>)
                  (float64_of_int (At (?ex ! i) - At (?ex ! (i - 1))))) (Fin 1000))"
    using UpdateIntensityAndSpeed_metrics [OF h1 h2 h3 h4 h5] by blast
  from m [rule_format, of 1]
  have "Slope (res ! 1) = Fin (1 / 2) \<and> Intensity (res ! 1) = 50 \<and> Speed (res ! 1) = Fin 100"
    by (auto simp: decoded_def float_eval)
  then show ?thesis using h1 res by auto
qed

section \<open>\<open>CalculateMedian\<close>\<close>

text \<open>
  \<open>sort.Slice\<close> is not part of the file. Its contract is that the slice is permuted
  into an order in which no element is \<open>less\<close> than an earlier one, with no promise on
  the order of elements neither of which is \<open>less\<close> than the other. The model is
  insertion sort, which keeps such elements in their order, and which is what the
  library runs on a slice of up to 12 elements; on a longer slice it runs a quicksort
  that can leave equal speeds, and the elements around a NaN, in another order. What is
  proved about the sorted slice of any length is therefore stated for every permutation
  in ascending order, not this one only, and the examples that name an order have at
  most four actions.
\<close>

fun insort_less :: "('a \<Rightarrow> 'a \<Rightarrow> bool) \<Rightarrow> 'a \<Rightarrow> 'a list \<Rightarrow> 'a list" where
  "insort_less lt x [] = [x]"
| "insort_less lt x (y # ys) = (if lt y x then y # insort_less lt x ys else x # y # ys)"

definition sort_Slice :: "('a \<Rightarrow> 'a \<Rightarrow> bool) \<Rightarrow> 'a list \<Rightarrow> 'a list" where
  "sort_Slice lt xs = foldr (insort_less lt) xs []"

text \<open>
  The method has a pointer receiver and sorts \<open>funscript.Actions\<close> itself, so the script
  is returned with the median. The median is \<open>None\<close> when the index expression panics,
  which is when there is no action (\<open>mNumber - 1\<close> is \<open>-1\<close>).
\<close>

definition CalculateMedian :: "Script \<Rightarrow> int option \<times> Script" where
  "CalculateMedian funscript =
     (let funscript' = (case Actions funscript of
                          None \<Rightarrow> funscript
                        | Some xs \<Rightarrow>
                            funscript\<lparr>Actions :=
                              Some (sort_Slice (\<lambda>a b. flt (Speed a) (Speed b)) xs)\<rparr>);
          acts = (case Actions funscript' of None \<Rightarrow> [] | Some xs \<Rightarrow> xs);
          mNumber = length acts div 2
      in if length acts mod 2 \<noteq> 0
         then (Some (int64_of_float64 (Speed (acts ! mNumber))), funscript')
         else if mNumber = 0 then (None, funscript')
         else (Some (int64_of_float64
                 (fdiv (fadd (Speed (acts ! (mNumber - 1))) (Speed (acts ! mNumber))) (Fin 2))),
               funscript'))"

subsection \<open>The sorted slice\<close>

text \<open>An order-preserving key for the values that are not NaN.\<close>

fun fkey :: "float64 \<Rightarrow> int \<times> real" where
  "fkey NInf = (0, 0)"
| "fkey (Fin r) = (1, r)"
| "fkey PInf = (2, 0)"
| "fkey NaN = (3, 0)"

lemma fkey_inj: "fkey x = fkey y \<Longrightarrow> x = y"
  by (cases x; cases y) simp_all

lemma map_fkey_inj: "map fkey xs = map fkey ys \<Longrightarrow> xs = ys"
  by (induction xs arbitrary: ys) (auto dest: fkey_inj)

lemma flt_fkey: "x \<noteq> NaN \<Longrightarrow> y \<noteq> NaN \<Longrightarrow> flt x y \<longleftrightarrow> fkey x < fkey y"
  by (cases x; cases y) (simp_all add: less_prod_def)

lemma fle_fkey: "x \<noteq> NaN \<Longrightarrow> y \<noteq> NaN \<Longrightarrow> fle x y \<longleftrightarrow> fkey x \<le> fkey y"
  by (cases x; cases y) (simp_all add: less_eq_prod_def)

lemma fle_not_NaN: "fle x y \<Longrightarrow> x \<noteq> NaN \<and> y \<noteq> NaN"
  by (cases x; cases y) simp_all

lemma mset_insort_less [simp]: "mset (insort_less lt x xs) = add_mset x (mset xs)"
  by (induction xs) simp_all

lemma mset_sort_Slice [simp]: "mset (sort_Slice lt xs) = mset xs"
  by (induction xs) (simp_all add: sort_Slice_def)

lemma length_sort_Slice [simp]: "length (sort_Slice lt xs) = length xs"
  using mset_sort_Slice [of lt xs] by (metis size_mset)

lemma set_sort_Slice [simp]: "set (sort_Slice lt xs) = set xs"
  using mset_sort_Slice [of lt xs] by (metis set_mset_mset)

lemma insort_less_key:
  assumes "Speed x \<noteq> NaN" "\<forall>a\<in>set xs. Speed a \<noteq> NaN"
  shows "insort_less (\<lambda>a b. flt (Speed a) (Speed b)) x xs = insort_key (\<lambda>a. fkey (Speed a)) x xs"
  using assms by (induction xs) (auto simp: flt_fkey)

lemma sort_Slice_key:
  assumes "\<forall>a\<in>set xs. Speed a \<noteq> NaN"
  shows "sort_Slice (\<lambda>a b. flt (Speed a) (Speed b)) xs = sort_key (\<lambda>a. fkey (Speed a)) xs"
  using assms
proof (induction xs)
  case Nil
  then show ?case by (simp add: sort_Slice_def)
next
  case (Cons x xs)
  then have ih: "sort_Slice (\<lambda>a b. flt (Speed a) (Speed b)) xs = sort_key (\<lambda>a. fkey (Speed a)) xs"
    by simp
  have "sort_Slice (\<lambda>a b. flt (Speed a) (Speed b)) (x # xs)
      = insort_less (\<lambda>a b. flt (Speed a) (Speed b)) x (sort_key (\<lambda>a. fkey (Speed a)) xs)"
    by (simp add: sort_Slice_def ih [unfolded sort_Slice_def])
  also have "\<dots> = insort_key (\<lambda>a. fkey (Speed a)) x (sort_key (\<lambda>a. fkey (Speed a)) xs)"
    using Cons.prems by (intro insort_less_key) simp_all
  finally show ?case by simp
qed

lemma sorted_wrt_fle_key:
  assumes "\<forall>a\<in>set ys. Speed a \<noteq> NaN"
  shows "sorted_wrt (\<lambda>a b. fle (Speed a) (Speed b)) ys \<longleftrightarrow> sorted (map (\<lambda>a. fkey (Speed a)) ys)"
  using assms by (induction ys) (auto simp: fle_fkey)

lemma ascending_no_NaN:
  assumes "sorted_wrt (\<lambda>a b. fle (Speed a) (Speed b)) ys" "2 \<le> length ys"
  shows "\<forall>a\<in>set ys. Speed a \<noteq> NaN"
proof
  fix a assume "a \<in> set ys"
  then obtain i where i: "i < length ys" "ys ! i = a" by (auto simp: in_set_conv_nth)
  define j where "j = (if i = 0 then 1 else 0::nat)"
  have j: "j < length ys" "j \<noteq> i" using assms(2) by (auto simp: j_def)
  have "fle (Speed (ys ! i)) (Speed (ys ! j)) \<or> fle (Speed (ys ! j)) (Speed (ys ! i))"
  proof (cases "i < j")
    case True
    then show ?thesis using sorted_wrt_nth_less [OF assms(1) True j(1)] by simp
  next
    case False
    then have "j < i" using j(2) by simp
    then show ?thesis using sorted_wrt_nth_less [OF assms(1) _ i(1)] by simp
  qed
  then show "Speed a \<noteq> NaN" using fle_not_NaN i(2) by blast
qed

text \<open>Every ascending permutation carries the speeds of the sorted slice, in order.\<close>

lemma ascending_speeds_unique:
  assumes "mset ys = mset xs" "sorted_wrt (\<lambda>a b. fle (Speed a) (Speed b)) ys"
  shows "map Speed (sort_Slice (\<lambda>a b. flt (Speed a) (Speed b)) xs) = map Speed ys"
proof (cases "2 \<le> length ys")
  case False
  have len: "length xs = length ys" using assms(1) by (metis size_mset)
  show ?thesis
  proof (cases ys)
    case Nil
    then show ?thesis using assms(1) by (simp add: sort_Slice_def)
  next
    case (Cons y ys')
    then have "ys = [y]" using False by (cases ys') simp_all
    moreover from this have "xs = [y]" using assms(1) by (metis mset_single_iff_right mset.simps(1))
    ultimately show ?thesis by (simp add: sort_Slice_def)
  qed
next
  case True
  let ?k = "\<lambda>a. fkey (Speed a)"
  have ny: "\<forall>a\<in>set ys. Speed a \<noteq> NaN" using assms(2) True by (rule ascending_no_NaN)
  then have nx: "\<forall>a\<in>set xs. Speed a \<noteq> NaN" using assms(1) by (metis set_mset_mset)
  have s1: "sorted (map ?k ys)" using assms(2) ny by (simp add: sorted_wrt_fle_key)
  have "mset (map ?k ys) = mset (map ?k xs)" using assms(1) by simp
  then have "sort (map ?k xs) = map ?k ys" using s1 by (rule properties_for_sort)
  moreover have "sort (map ?k xs) = map ?k (sort_key ?k xs)"
    by (rule properties_for_sort) simp_all
  ultimately have "map ?k (sort_key ?k xs) = map ?k ys" by simp
  then have "map fkey (map Speed (sort_key ?k xs)) = map fkey (map Speed ys)"
    by (simp add: comp_def)
  then have "map Speed (sort_key ?k xs) = map Speed ys" by (rule map_fkey_inj)
  then show ?thesis using nx by (simp add: sort_Slice_key)
qed


subsection \<open>The script after \<open>CalculateMedian\<close>\<close>

lemma snd_CalculateMedian:
  "Actions funscript = Some xs \<Longrightarrow>
   snd (CalculateMedian funscript) =
     funscript\<lparr>Actions := Some (sort_Slice (\<lambda>a b. flt (Speed a) (Speed b)) xs)\<rparr>"
  by (simp add: CalculateMedian_def Let_def)

text \<open>Three actions one second apart, at positions 0, 100 and 50.\<close>

definition three_strokes :: Script where
  "three_strokes = UpdateIntensityAndSpeed (doc_of [decoded 0 0, decoded 1000 100, decoded 2000 50])"

lemma three_strokes_Actions:
  "Actions three_strokes =
     Some [decoded 0 0,
           \<lparr>At = 1000, Pos = 100, Slope = Fin (1 / 2), Intensity = 50, Speed = Fin 100\<rparr>,
           \<lparr>At = 2000, Pos = 50, Slope = Fin (1 / 2), Intensity = 25, Speed = Fin 50\<rparr>]"
proof -
  let ?ex = "[decoded 0 0, decoded 1000 100, decoded 2000 50]"
  have s1: "slope_of (decoded 0 0) (decoded 1000 100) = Fin (1 / 2)"
    "slope_of (decoded 1000 100) (decoded 2000 50) = Fin (1 / 2)"
    by (simp_all add: slope_of_def decoded_def float_eval)
  have s2: "intensity_of (decoded 0 0) (decoded 1000 100) = 50"
    "intensity_of (decoded 1000 100) (decoded 2000 50) = 25"
    unfolding intensity_of_def s1 by (simp_all add: decoded_def float_eval)
  have s3: "speed_of (decoded 0 0) (decoded 1000 100) = Fin 100"
    "speed_of (decoded 1000 100) (decoded 2000 50) = Fin 50"
    by (simp_all add: speed_of_def decoded_def float_eval)
  have "foldl metrics_step ?ex [0..<length ?ex] = map (annotated ?ex (length ?ex)) [0..<length ?ex]"
    by (rule metrics_fold) simp
  also have "\<dots> = [decoded 0 0,
           \<lparr>At = 1000, Pos = 100, Slope = Fin (1 / 2), Intensity = 50, Speed = Fin 100\<rparr>,
           \<lparr>At = 2000, Pos = 50, Slope = Fin (1 / 2), Intensity = 25, Speed = Fin 50\<rparr>]"
    by (simp add: annotated_def s1 s2 s3) (simp add: decoded_def)
  finally show ?thesis
    by (simp add: three_strokes_def UpdateIntensityAndSpeed_def doc_of_def Script_zero_def)
qed

text \<open>
  Claim C5 fails: \<open>CalculateMedian\<close> sorts the \<open>Actions\<close> of the script itself. After the
  call the three strokes are in the order of their speeds 0, 50, 100, which is the order
  of the timestamps 0, 2000, 1000.
\<close>

theorem CalculateMedian_reorders_Actions:
  "Actions (snd (CalculateMedian three_strokes)) \<noteq> Actions three_strokes
   \<and> map_option (map At) (Actions three_strokes) = Some [0, 1000, 2000]
   \<and> map_option (map At) (Actions (snd (CalculateMedian three_strokes))) = Some [0, 2000, 1000]"
  by (simp add: snd_CalculateMedian [OF three_strokes_Actions] three_strokes_Actions
      sort_Slice_def decoded_def)

text \<open>
  Claim C5, amended. \<open>CalculateMedian\<close> sorts the \<open>Actions\<close> slice of the script in place:
  after the call the script has the same actions, each as often as before, and when no
  speed is NaN they are in ascending order of speed; no other field of the script
  changes. The order by \<open>At\<close> is kept only where it agrees with the order by speed.
\<close>

theorem CalculateMedian_sorts_in_place:
  assumes "Actions funscript = Some xs"
  shows "\<exists>ys. snd (CalculateMedian funscript) = funscript\<lparr>Actions := Some ys\<rparr>
    \<and> mset ys = mset xs
    \<and> ((\<forall>a\<in>set xs. Speed a \<noteq> NaN) \<longrightarrow> sorted_wrt (\<lambda>a b. fle (Speed a) (Speed b)) ys)"
proof -
  let ?ys = "sort_Slice (\<lambda>a b. flt (Speed a) (Speed b)) xs"
  have "sorted_wrt (\<lambda>a b. fle (Speed a) (Speed b)) ?ys" if nn: "\<forall>a\<in>set xs. Speed a \<noteq> NaN"
  proof -
    have "sorted (map (\<lambda>a. fkey (Speed a)) (sort_key (\<lambda>a. fkey (Speed a)) xs))" by simp
    then have "sorted (map (\<lambda>a. fkey (Speed a)) ?ys)" using nn by (simp only: sort_Slice_key)
    moreover have "\<forall>a\<in>set ?ys. Speed a \<noteq> NaN" using nn by simp
    ultimately show ?thesis by (simp only: sorted_wrt_fle_key)
  qed
  then show ?thesis using snd_CalculateMedian [OF assms] by auto
qed

theorem CalculateMedian_sorts_in_place_witness:
  "\<exists>ys. snd (CalculateMedian three_strokes) = three_strokes\<lparr>Actions := Some ys\<rparr>
     \<and> map At ys = [0, 2000, 1000] \<and> sorted_wrt (\<lambda>a b. fle (Speed a) (Speed b)) ys"
proof -
  obtain ys where ys: "snd (CalculateMedian three_strokes) = three_strokes\<lparr>Actions := Some ys\<rparr>"
    and srt: "(\<forall>a\<in>set [decoded 0 0,
           \<lparr>At = 1000, Pos = 100, Slope = Fin (1 / 2), Intensity = 50, Speed = Fin 100\<rparr>,
           \<lparr>At = 2000, Pos = 50, Slope = Fin (1 / 2), Intensity = 25, Speed = Fin 50\<rparr>].
              Speed a \<noteq> NaN) \<longrightarrow> sorted_wrt (\<lambda>a b. fle (Speed a) (Speed b)) ys"
    using CalculateMedian_sorts_in_place [OF three_strokes_Actions] by blast
  have "sorted_wrt (\<lambda>a b. fle (Speed a) (Speed b)) ys" using srt by (simp add: decoded_def)
  moreover have "Actions (snd (CalculateMedian three_strokes)) = Some ys" by (simp add: ys)
  then have "map At ys = [0, 2000, 1000]"
    by (simp add: snd_CalculateMedian [OF three_strokes_Actions] sort_Slice_def decoded_def)
      (auto)
  ultimately show ?thesis using ys by (intro exI [of _ ys] conjI)
qed

subsection \<open>Equal timestamps\<close>

lemma pow2_not_le_0 [simp]: "\<not> pow2 a \<le> 0"
  using pow2_pos [of a] by linarith

lemma round64_0 [simp]: "round64 0 = Fin 0"
  by (simp add: round64_def)

lemma float64_of_int_0 [simp]: "float64_of_int 0 = Fin 0"
  by (simp add: float64_of_int_def)

lemma wrap64_0 [simp]: "wrap64 0 = 0"
  by (simp add: wrap64_def)

lemma slope_of_equal_At:
  assumes "At cur = At prev"
  shows "slope_of prev cur = Fin 20"
  using assms by (simp add: slope_of_def fmax_def fmin_def)

lemma wrap64_eq_0:
  assumes "- (2 ^ 63) \<le> a" "a < 2 ^ 63" "- (2 ^ 63) \<le> b" "b < 2 ^ 63" "wrap64 (a - b) = 0"
  shows "a = b"
proof -
  define q where "q = (a - b + 2 ^ 63) div 2 ^ 64"
  have m: "(a - b + 2 ^ 63) mod 2 ^ 64 = 2 ^ 63" using assms(5) by (simp add: wrap64_def)
  have "a - b + 2 ^ 63 = q * 2 ^ 64 + (a - b + 2 ^ 63) mod 2 ^ 64"
    unfolding q_def by (rule div_mult_mod_eq [symmetric])
  then have q: "a - b = q * 18446744073709551616" unfolding m by simp
  have "- 18446744073709551616 < a - b" "a - b < 18446744073709551616"
    using assms(1-4) by simp_all
  then have "q = 0" unfolding q by linarith
  then show ?thesis using q by simp
qed

lemma float64_of_int_nonzero:
  assumes "k \<noteq> 0" "- (2 ^ 63) \<le> k" "k < 2 ^ 63"
  shows "\<exists>r. fabs (float64_of_int k) = Fin r \<and> 0 < r"
proof -
  have one: "1 \<le> \<bar>real_of_int k\<bar>" using assms(1) by (simp flip: of_int_abs)
  have "nearest 1 \<le> nearest \<bar>real_of_int k\<bar>" using one by (rule nearest_mono)
  then have lo: "1 \<le> nearest \<bar>real_of_int k\<bar>" by simp
  have "\<bar>real_of_int k\<bar> \<le> of_int (2 ^ 63)" using assms(2,3) by (simp flip: of_int_abs)
  moreover have "real_of_int (2 ^ 63) = of_int 1 * pow2 63" using pow2_nat [of 63] by simp
  then have "nearest (of_int (2 ^ 63)) = of_int (2 ^ 63)" by (rule nearest_grid) simp_all
  ultimately have up: "nearest \<bar>real_of_int k\<bar> \<le> of_int (2 ^ 63)"
    using nearest_mono [of "\<bar>real_of_int k\<bar>" "of_int (2 ^ 63)"] by simp
  have ab: "\<bar>nearest (real_of_int k)\<bar> = nearest \<bar>real_of_int k\<bar>"
    using nearest_minus [of "real_of_int k"] lo
    by (cases "0 \<le> real_of_int k") (simp_all add: abs_if)
  have "real_of_int (2 ^ 63) = pow2 63" using pow2_nat [of 63] by simp
  also have "\<dots> < pow2 1024" by simp
  finally have "\<bar>nearest (real_of_int k)\<bar> < pow2 1024" using up ab by linarith
  then have "float64_of_int k = Fin (nearest (real_of_int k))"
    by (simp add: float64_of_int_def round64_def)
  then show ?thesis using lo ab by simp
qed

lemma speed_of_equal_At:
  assumes "At cur = At prev"
    and "- (2 ^ 63) \<le> Pos cur" "Pos cur < 2 ^ 63" "- (2 ^ 63) \<le> Pos prev" "Pos prev < 2 ^ 63"
  shows "speed_of prev cur = (if Pos cur = Pos prev then NaN else PInf)"
proof (cases "Pos cur = Pos prev")
  case True
  then show ?thesis using assms(1) by (simp add: speed_of_def)
next
  case False
  then have "wrap64 (Pos cur - Pos prev) \<noteq> 0" using wrap64_eq_0 [OF assms(2-5)] by blast
  moreover have "- (2 ^ 63) \<le> wrap64 (Pos cur - Pos prev)" "wrap64 (Pos cur - Pos prev) < 2 ^ 63"
    by (simp_all add: wrap64_def)
  ultimately obtain r where "fabs (float64_of_int (wrap64 (Pos cur - Pos prev))) = Fin r" "0 < r"
    using float64_of_int_nonzero by blast
  then show ?thesis using assms(1) False by (simp add: speed_of_def)
qed


text \<open>
  Two actions with the same timestamp, at positions 0 and \<open>p\<close>, as the loader returns
  them for a scene of five seconds, and the script after \<open>UpdateIntensityAndSpeed\<close>.
\<close>

definition tied_loaded :: "int \<Rightarrow> (error + Script) \<times> log_entry list" where
  "tied_loaded p =
     LoadFunscriptData (loader_of (doc_of [decoded 500 0, decoded 500 p])) (gen_of 5000)
       ''a.funscript''"

definition tied_annotated :: "int \<Rightarrow> Script" where
  "tied_annotated p = UpdateIntensityAndSpeed (doc_of [decoded 500 0, decoded 500 p])"

lemma tied_loaded_eq: "tied_loaded p = (Inr (doc_of [decoded 500 0, decoded 500 p]), [])"
  by (simp add: tied_loaded_def LoadFunscriptData_def loader_of_def doc_of_def gen_of_def
      Script_zero_def decoded_def trim_loop_def isValid_def)

lemma UpdateIntensityAndSpeed_nth:
  assumes "Actions funscript = Some acts" "0 < i" "i < length acts"
  shows "\<exists>res. Actions (UpdateIntensityAndSpeed funscript) = Some res
    \<and> length res = length acts
    \<and> res ! 0 = acts ! 0
    \<and> Slope (res ! i) = slope_of (acts ! (i - 1)) (acts ! i)
    \<and> Speed (res ! i) = speed_of (acts ! (i - 1)) (acts ! i)"
proof -
  have len: "0 < length acts" using assms(2,3) by linarith
  have "map (annotated acts (length acts)) [0..<length acts] ! 0 = acts ! 0"
    using len by (simp add: annotated_def)
  then show ?thesis
    using assms metrics_fold [of "length acts" acts]
    by (simp add: UpdateIntensityAndSpeed_def annotated_def)
qed

lemma tied_annotated_speeds:
  "\<exists>a b. Actions (tied_annotated p) = Some [a, b] \<and> Speed a = Fin 0
     \<and> Slope b = Fin 20 \<and> Speed b = (if p = 0 then NaN else PInf)"
  if "- (2 ^ 63) \<le> p" "p < 2 ^ 63"
proof -
  let ?ex = "[decoded 500 0, decoded 500 p]"
  obtain res where res: "Actions (tied_annotated p) = Some res" "length res = length ?ex"
    "res ! 0 = ?ex ! 0" "Slope (res ! 1) = slope_of (?ex ! (1 - 1)) (?ex ! 1)"
    "Speed (res ! 1) = speed_of (?ex ! (1 - 1)) (?ex ! 1)"
    using UpdateIntensityAndSpeed_nth [of "doc_of ?ex" ?ex 1]
    by (auto simp: tied_annotated_def doc_of_def)
  obtain a b where ab: "res = [a, b]" using res(2) by (auto simp: length_Suc_conv)
  have "slope_of (decoded 500 0) (decoded 500 p) = Fin 20"
    by (rule slope_of_equal_At) (simp add: decoded_def)
  moreover have "speed_of (decoded 500 0) (decoded 500 p) = (if p = 0 then NaN else PInf)"
    using speed_of_equal_At [of "decoded 500 p" "decoded 500 0"] that by (simp add: decoded_def)
  ultimately show ?thesis using res ab by (simp add: decoded_def)
qed

text \<open>
  Claim C10. Nothing guards the divisions against a zero time difference. Two
  consecutive actions with equal timestamps, with positions that are \<open>int\<close>s, get slope 20
  and a speed that is \<open>+Inf\<close> when the positions differ and NaN when they are equal.
  Validation keeps such a pair: the two actions at 500 ms are loaded unchanged and
  without a warning. With positions 0 and 10 the median of the speeds \<open>[0, +Inf]\<close> is the
  conversion of \<open>+Inf\<close>; with positions 0 and 0 the median of \<open>[0, NaN]\<close> is the conversion
  of NaN.
\<close>

theorem equal_timestamps_non_finite_speed:
  "(Actions funscript = Some acts \<and> (\<forall>a\<in>set acts. - (2 ^ 63) \<le> Pos a \<and> Pos a < 2 ^ 63)
      \<and> 0 < i \<and> i < length acts \<and> At (acts ! i) = At (acts ! (i - 1))
    \<longrightarrow> (\<exists>res. Actions (UpdateIntensityAndSpeed funscript) = Some res
          \<and> Slope (res ! i) = Fin 20
          \<and> Speed (res ! i) = (if Pos (acts ! i) = Pos (acts ! (i - 1)) then NaN else PInf)))
   \<and> tied_loaded 10 = (Inr (doc_of [decoded 500 0, decoded 500 10]), [])
   \<and> map_option (map Speed) (Actions (tied_annotated 10)) = Some [Fin 0, PInf]
   \<and> fst (CalculateMedian (tied_annotated 10)) = Some (int64_of_float64 PInf)
   \<and> tied_loaded 0 = (Inr (doc_of [decoded 500 0, decoded 500 0]), [])
   \<and> map_option (map Speed) (Actions (tied_annotated 0)) = Some [Fin 0, NaN]
   \<and> fst (CalculateMedian (tied_annotated 0)) = Some (int64_of_float64 NaN)"
proof (intro conjI impI)
  assume h: "Actions funscript = Some acts \<and> (\<forall>a\<in>set acts. - (2 ^ 63) \<le> Pos a \<and> Pos a < 2 ^ 63)
      \<and> 0 < i \<and> i < length acts \<and> At (acts ! i) = At (acts ! (i - 1))"
  then have "i - 1 < length acts" by linarith
  then have mem: "acts ! i \<in> set acts" "acts ! (i - 1) \<in> set acts" using h by simp_all
  obtain res where res: "Actions (UpdateIntensityAndSpeed funscript) = Some res"
    "Slope (res ! i) = slope_of (acts ! (i - 1)) (acts ! i)"
    "Speed (res ! i) = speed_of (acts ! (i - 1)) (acts ! i)"
    using UpdateIntensityAndSpeed_nth [of funscript acts i] h by blast
  have "slope_of (acts ! (i - 1)) (acts ! i) = Fin 20" using h by (intro slope_of_equal_At) simp
  moreover have "speed_of (acts ! (i - 1)) (acts ! i) =
      (if Pos (acts ! i) = Pos (acts ! (i - 1)) then NaN else PInf)"
    using h mem by (intro speed_of_equal_At) auto
  ultimately show "\<exists>res. Actions (UpdateIntensityAndSpeed funscript) = Some res
          \<and> Slope (res ! i) = Fin 20
          \<and> Speed (res ! i) = (if Pos (acts ! i) = Pos (acts ! (i - 1)) then NaN else PInf)"
    using res by auto
next
  show "tied_loaded 10 = (Inr (doc_of [decoded 500 0, decoded 500 10]), [])"
    by (rule tied_loaded_eq)
  show "tied_loaded 0 = (Inr (doc_of [decoded 500 0, decoded 500 0]), [])"
    by (rule tied_loaded_eq)
  obtain a b where ab: "Actions (tied_annotated 10) = Some [a, b]" "Speed a = Fin 0"
    "Speed b = PInf"
    using tied_annotated_speeds [of 10] by auto
  show "map_option (map Speed) (Actions (tied_annotated 10)) = Some [Fin 0, PInf]"
    by (simp add: ab)
  show "fst (CalculateMedian (tied_annotated 10)) = Some (int64_of_float64 PInf)"
    by (simp add: CalculateMedian_def Let_def ab sort_Slice_def)
  obtain c d where cd: "Actions (tied_annotated 0) = Some [c, d]" "Speed c = Fin 0"
    "Speed d = NaN"
    using tied_annotated_speeds [of 0] by auto
  show "map_option (map Speed) (Actions (tied_annotated 0)) = Some [Fin 0, NaN]"
    by (simp add: cd)
  show "fst (CalculateMedian (tied_annotated 0)) = Some (int64_of_float64 NaN)"
    by (simp add: CalculateMedian_def Let_def cd sort_Slice_def)
qed

theorem equal_timestamps_non_finite_speed_witness:
  "\<exists>res. Actions (UpdateIntensityAndSpeed (doc_of [decoded 500 0, decoded 500 10])) = Some res
     \<and> Slope (res ! 1) = Fin 20 \<and> Speed (res ! 1) = PInf"
  using equal_timestamps_non_finite_speed
    [of "doc_of [decoded 500 0, decoded 500 10]" "[decoded 500 0, decoded 500 10]" 1]
  by (simp add: doc_of_def decoded_def)

subsection \<open>The median\<close>

text \<open>When no speed is NaN the sorted slice is an ascending order of the actions.\<close>

lemma ascending_exists:
  assumes "\<forall>a\<in>set xs. Speed a \<noteq> NaN"
  shows "mset (sort_Slice (\<lambda>a b. flt (Speed a) (Speed b)) xs) = mset xs
    \<and> sorted_wrt (\<lambda>a b. fle (Speed a) (Speed b)) (sort_Slice (\<lambda>a b. flt (Speed a) (Speed b)) xs)"
proof -
  let ?srt = "sort_Slice (\<lambda>a b. flt (Speed a) (Speed b)) xs"
  have "\<forall>a\<in>set ?srt. Speed a \<noteq> NaN" using assms by simp
  moreover have "sorted (map (\<lambda>a. fkey (Speed a)) ?srt)"
    using assms by (simp add: sort_Slice_key)
  ultimately show ?thesis by (simp add: sorted_wrt_fle_key)
qed

text \<open>
  Three validated actions of which two are equal, so that one speed is NaN: in the
  middle when the first two actions are equal, at the end when the last two are.
\<close>

definition nan_middle :: Script where
  "nan_middle = UpdateIntensityAndSpeed (doc_of [decoded 0 0, decoded 0 0, decoded 1000 100])"

definition nan_last :: Script where
  "nan_last = UpdateIntensityAndSpeed (doc_of [decoded 0 0, decoded 1000 100, decoded 1000 100])"

lemma nan_middle_Actions:
  "Actions nan_middle =
     Some [decoded 0 0,
           \<lparr>At = 0, Pos = 0, Slope = Fin 20, Intensity = 0, Speed = NaN\<rparr>,
           \<lparr>At = 1000, Pos = 100, Slope = Fin (1 / 2), Intensity = 50, Speed = Fin 100\<rparr>]"
proof -
  let ?ex = "[decoded 0 0, decoded 0 0, decoded 1000 100]"
  have s1: "slope_of (decoded 0 0) (decoded 0 0) = Fin 20"
    by (rule slope_of_equal_At) simp
  have s2: "slope_of (decoded 0 0) (decoded 1000 100) = Fin (1 / 2)"
    by (simp add: slope_of_def decoded_def float_eval)
  have i1: "intensity_of (decoded 0 0) (decoded 0 0) = 0"
    unfolding intensity_of_def s1 by (simp add: decoded_def float_eval)
  have i2: "intensity_of (decoded 0 0) (decoded 1000 100) = 50"
    unfolding intensity_of_def s2 by (simp add: decoded_def float_eval)
  have v1: "speed_of (decoded 0 0) (decoded 0 0) = NaN"
    using speed_of_equal_At [of "decoded 0 0" "decoded 0 0"] by (simp add: decoded_def)
  have v2: "speed_of (decoded 0 0) (decoded 1000 100) = Fin 100"
    by (simp add: speed_of_def decoded_def float_eval)
  have "foldl metrics_step ?ex [0..<length ?ex] = map (annotated ?ex (length ?ex)) [0..<length ?ex]"
    by (rule metrics_fold) simp
  also have "\<dots> = [decoded 0 0,
           \<lparr>At = 0, Pos = 0, Slope = Fin 20, Intensity = 0, Speed = NaN\<rparr>,
           \<lparr>At = 1000, Pos = 100, Slope = Fin (1 / 2), Intensity = 50, Speed = Fin 100\<rparr>]"
    by (simp add: annotated_def s1 s2 i1 i2 v1 v2) (simp add: decoded_def)
  finally show ?thesis
    by (simp add: nan_middle_def UpdateIntensityAndSpeed_def doc_of_def Script_zero_def)
qed

lemma nan_last_Actions:
  "Actions nan_last =
     Some [decoded 0 0,
           \<lparr>At = 1000, Pos = 100, Slope = Fin (1 / 2), Intensity = 50, Speed = Fin 100\<rparr>,
           \<lparr>At = 1000, Pos = 100, Slope = Fin 20, Intensity = 0, Speed = NaN\<rparr>]"
proof -
  let ?ex = "[decoded 0 0, decoded 1000 100, decoded 1000 100]"
  have s1: "slope_of (decoded 1000 100) (decoded 1000 100) = Fin 20"
    by (rule slope_of_equal_At) simp
  have s2: "slope_of (decoded 0 0) (decoded 1000 100) = Fin (1 / 2)"
    by (simp add: slope_of_def decoded_def float_eval)
  have i1: "intensity_of (decoded 1000 100) (decoded 1000 100) = 0"
    unfolding intensity_of_def s1 by (simp add: decoded_def float_eval)
  have i2: "intensity_of (decoded 0 0) (decoded 1000 100) = 50"
    unfolding intensity_of_def s2 by (simp add: decoded_def float_eval)
  have v1: "speed_of (decoded 1000 100) (decoded 1000 100) = NaN"
    using speed_of_equal_At [of "decoded 1000 100" "decoded 1000 100"] by (simp add: decoded_def)
  have v2: "speed_of (decoded 0 0) (decoded 1000 100) = Fin 100"
    by (simp add: speed_of_def decoded_def float_eval)
  have "foldl metrics_step ?ex [0..<length ?ex] = map (annotated ?ex (length ?ex)) [0..<length ?ex]"
    by (rule metrics_fold) simp
  also have "\<dots> = [decoded 0 0,
           \<lparr>At = 1000, Pos = 100, Slope = Fin (1 / 2), Intensity = 50, Speed = Fin 100\<rparr>,
           \<lparr>At = 1000, Pos = 100, Slope = Fin 20, Intensity = 0, Speed = NaN\<rparr>]"
    by (simp add: annotated_def s1 s2 i1 i2 v1 v2) (simp add: decoded_def)
  finally show ?thesis
    by (simp add: nan_last_def UpdateIntensityAndSpeed_def doc_of_def Script_zero_def)
qed

lemma nan_middle_loaded:
  "LoadFunscriptData (loader_of (doc_of [decoded 0 0, decoded 0 0, decoded 1000 100]))
     (gen_of 5000) ''a.funscript''
   = (Inr (doc_of [decoded 0 0, decoded 0 0, decoded 1000 100]), [])"
  by (simp add: LoadFunscriptData_def loader_of_def doc_of_def gen_of_def
      Script_zero_def decoded_def trim_loop_def isValid_def Let_def)

lemma nan_medians:
  "fst (CalculateMedian nan_middle) = Some (- 9223372036854775808)"
  "fst (CalculateMedian nan_last) = Some 100"
  "map_option (map Speed) (Actions (snd (CalculateMedian nan_middle))) = Some [Fin 0, NaN, Fin 100]"
  by (simp_all add: CalculateMedian_def Let_def nan_middle_Actions nan_last_Actions
      sort_Slice_def decoded_def int64_of_float64_def trunc_def)

text \<open>
  Claim C4 fails on a sequence with a NaN speed. The three validated actions at 0, 0 and
  1000 ms with positions 0, 0 and 100 get the speeds 0, NaN and 100. No order of them is
  ascending, \<open>sort.Slice\<close> leaves them as they are, and the value returned is the
  conversion of NaN, \<open>-2^63\<close>, which is not the integer part of any of the speeds. With
  the equal pair last the speeds are 0, 100 and NaN and the value is 100.
\<close>

theorem CalculateMedian_NaN_speed:
  "LoadFunscriptData (loader_of (doc_of [decoded 0 0, decoded 0 0, decoded 1000 100]))
     (gen_of 5000) ''a.funscript''
     = (Inr (doc_of [decoded 0 0, decoded 0 0, decoded 1000 100]), [])
   \<and> map_option (map Speed) (Actions nan_middle) = Some [Fin 0, NaN, Fin 100]
   \<and> map_option (map Speed) (Actions (snd (CalculateMedian nan_middle)))
       = Some [Fin 0, NaN, Fin 100]
   \<and> \<not> sorted_wrt fle [Fin 0, NaN, Fin 100]
   \<and> fst (CalculateMedian nan_middle) = Some (- 9223372036854775808)
   \<and> map_option (map Speed) (Actions nan_last) = Some [Fin 0, Fin 100, NaN]
   \<and> fst (CalculateMedian nan_last) = Some 100"
  using nan_middle_loaded nan_medians
  by (simp add: nan_middle_Actions nan_last_Actions decoded_def)

text \<open>
  Claim C4, amended. For a script with at least one action \<open>CalculateMedian\<close> returns a
  value (the index expressions do not panic): for some order of all the actions, index 0
  with the others, it is the speed of the middle element converted to an integer when
  the count is odd, and the converted half of the sum of the two middle speeds when the
  count is even; the conversion truncates a finite speed. When no speed is NaN an
  ascending order by speed exists, and the value is that of every ascending order; speeds
  \<open>[1, 3, 5]\<close> give 3 and speeds \<open>[1, 2, 3, 4]\<close> give 2. When a speed is NaN and there are
  two actions or more, no order is ascending, and the value depends on the order of the
  input: the speeds 0, NaN, 100 give \<open>-2^63\<close>, the speeds 0, 100, NaN give 100.
\<close>

theorem CalculateMedian_median:
  assumes "Actions funscript = Some xs" and "xs \<noteq> []"
  shows "(\<exists>ys. mset ys = mset xs
            \<and> fst (CalculateMedian funscript) =
              Some (if odd (length xs)
                    then int64_of_float64 (Speed (ys ! (length xs div 2)))
                    else int64_of_float64
                      (fdiv (fadd (Speed (ys ! (length xs div 2 - 1)))
                                  (Speed (ys ! (length xs div 2)))) (Fin 2))))
    \<and> ((\<forall>a\<in>set xs. Speed a \<noteq> NaN) \<longrightarrow>
          (\<exists>ys. mset ys = mset xs \<and> sorted_wrt (\<lambda>a b. fle (Speed a) (Speed b)) ys))
    \<and> (\<forall>ys. mset ys = mset xs \<and> sorted_wrt (\<lambda>a b. fle (Speed a) (Speed b)) ys \<longrightarrow>
            fst (CalculateMedian funscript) =
              Some (if odd (length xs)
                    then int64_of_float64 (Speed (ys ! (length xs div 2)))
                    else int64_of_float64
                      (fdiv (fadd (Speed (ys ! (length xs div 2 - 1)))
                                  (Speed (ys ! (length xs div 2)))) (Fin 2))))
    \<and> (map Speed xs = [Fin 1, Fin 3, Fin 5] \<longrightarrow> fst (CalculateMedian funscript) = Some 3)
    \<and> (map Speed xs = [Fin 1, Fin 2, Fin 3, Fin 4] \<longrightarrow> fst (CalculateMedian funscript) = Some 2)
    \<and> ((\<exists>a\<in>set xs. Speed a = NaN) \<and> 2 \<le> length xs \<longrightarrow>
          \<not> (\<exists>ys. mset ys = mset xs \<and> sorted_wrt (\<lambda>a b. fle (Speed a) (Speed b)) ys))
    \<and> (\<forall>r. - (2 ^ 63) \<le> trunc r \<and> trunc r < 2 ^ 63 \<longrightarrow> int64_of_float64 (Fin r) = trunc r)
    \<and> fst (CalculateMedian nan_middle) = Some (- (2 ^ 63))
    \<and> fst (CalculateMedian nan_last) = Some 100"
proof (intro conjI allI impI)
  let ?srt = "sort_Slice (\<lambda>a b. flt (Speed a) (Speed b)) xs"
  have len: "0 < length xs" using assms(2) by simp
  have cm: "fst (CalculateMedian funscript) =
      (if length xs mod 2 \<noteq> 0 then Some (int64_of_float64 (Speed (?srt ! (length xs div 2))))
       else Some (int64_of_float64
              (fdiv (fadd (Speed (?srt ! (length xs div 2 - 1)))
                          (Speed (?srt ! (length xs div 2)))) (Fin 2))))"
  proof (cases "length xs mod 2 = 0")
    case True
    then have "length xs div 2 \<noteq> 0" using len by presburger
    then show ?thesis using assms(1) True by (simp add: CalculateMedian_def Let_def)
  next
    case False
    then show ?thesis using assms(1) by (simp add: CalculateMedian_def Let_def)
  qed
  show "\<exists>ys. mset ys = mset xs
            \<and> fst (CalculateMedian funscript) =
              Some (if odd (length xs)
                    then int64_of_float64 (Speed (ys ! (length xs div 2)))
                    else int64_of_float64
                      (fdiv (fadd (Speed (ys ! (length xs div 2 - 1)))
                                  (Speed (ys ! (length xs div 2)))) (Fin 2)))"
    unfolding cm by (intro exI [of _ ?srt]) (simp add: odd_iff_mod_2_eq_one)
  {
    assume "\<forall>a\<in>set xs. Speed a \<noteq> NaN"
    then show "\<exists>ys. mset ys = mset xs \<and> sorted_wrt (\<lambda>a b. fle (Speed a) (Speed b)) ys"
      using ascending_exists [of xs] by blast
  }
  {
    fix ys
    assume ys: "mset ys = mset xs \<and> sorted_wrt (\<lambda>a b. fle (Speed a) (Speed b)) ys"
    then have sp: "map Speed ?srt = map Speed ys" by (intro ascending_speeds_unique) simp_all
    have nth: "Speed (?srt ! k) = Speed (ys ! k)" if "k < length xs" for k
    proof -
      have "Speed (?srt ! k) = map Speed ?srt ! k" using that by simp
      also have "\<dots> = map Speed ys ! k" by (simp only: sp)
      also have "\<dots> = Speed (ys ! k)" using that ys by (metis nth_map size_mset)
      finally show ?thesis .
    qed
    have k1: "length xs div 2 < length xs" using len by simp
    have k2: "length xs div 2 - 1 < length xs" using k1 by linarith
    show "fst (CalculateMedian funscript) =
              Some (if odd (length xs)
                    then int64_of_float64 (Speed (ys ! (length xs div 2)))
                    else int64_of_float64
                      (fdiv (fadd (Speed (ys ! (length xs div 2 - 1)))
                                  (Speed (ys ! (length xs div 2)))) (Fin 2)))"
      unfolding cm nth [OF k1] nth [OF k2] by (simp add: odd_iff_mod_2_eq_one)
  }
  {
    assume "map Speed xs = [Fin 1, Fin 3, Fin 5]"
    then obtain a b c where xs: "xs = [a, b, c]"
      and sp: "Speed a = Fin 1" "Speed b = Fin 3" "Speed c = Fin 5"
      by (auto simp: map_eq_Cons_conv)
    have "?srt = [a, b, c]" by (simp add: xs sort_Slice_def sp)
    then show "fst (CalculateMedian funscript) = Some 3"
      unfolding cm by (simp add: xs sp int64_of_float64_def trunc_def)
  }
  {
    assume "map Speed xs = [Fin 1, Fin 2, Fin 3, Fin 4]"
    then obtain a b c d where xs: "xs = [a, b, c, d]"
      and sp: "Speed a = Fin 1" "Speed b = Fin 2" "Speed c = Fin 3" "Speed d = Fin 4"
      by (auto simp: map_eq_Cons_conv)
    have srt: "?srt = [a, b, c, d]" by (simp add: xs sort_Slice_def sp)
    have "fdiv (fadd (Fin 2) (Fin 3)) (Fin 2) = Fin (5 / 2)" by (simp add: float_eval)
    then show "fst (CalculateMedian funscript) = Some 2"
      unfolding cm srt by (simp add: xs sp int64_of_float64_def trunc_def)
  }
  {
    assume nan: "(\<exists>a\<in>set xs. Speed a = NaN) \<and> 2 \<le> length xs"
    show "\<not> (\<exists>ys. mset ys = mset xs \<and> sorted_wrt (\<lambda>a b. fle (Speed a) (Speed b)) ys)"
    proof
      assume "\<exists>ys. mset ys = mset xs \<and> sorted_wrt (\<lambda>a b. fle (Speed a) (Speed b)) ys"
      then obtain ys where ys: "mset ys = mset xs"
        "sorted_wrt (\<lambda>a b. fle (Speed a) (Speed b)) ys" by blast
      have "length ys = length xs" using ys(1) by (metis size_mset)
      then have "\<forall>a\<in>set ys. Speed a \<noteq> NaN" using ascending_no_NaN [OF ys(2)] nan by simp
      moreover have "set ys = set xs" using ys(1) by (metis set_mset_mset)
      ultimately show False using nan by blast
    qed
  }
  {
    fix r
    assume "- (2 ^ 63) \<le> trunc r \<and> trunc r < 2 ^ 63"
    then show "int64_of_float64 (Fin r) = trunc r" by (simp add: int64_of_float64_def)
  }
  show "fst (CalculateMedian nan_middle) = Some (- (2 ^ 63))" using nan_medians(1) by simp
  show "fst (CalculateMedian nan_last) = Some 100" by (rule nan_medians(2))
qed

text \<open>An action with a given timestamp and speed, for the examples.\<close>

definition with_speed :: "int \<Rightarrow> real \<Rightarrow> Action" where
  "with_speed t v = \<lparr>At = t, Pos = 0, Slope = Fin 0, Intensity = 0, Speed = Fin v\<rparr>"

theorem CalculateMedian_median_witness:
  "fst (CalculateMedian (doc_of [with_speed 0 5, with_speed 10 1, with_speed 20 3])) = Some 3
   \<and> (\<exists>ys. mset ys = mset [with_speed 0 5, with_speed 10 1, with_speed 20 3]
         \<and> sorted_wrt (\<lambda>a b. fle (Speed a) (Speed b)) ys)
   \<and> fst (CalculateMedian (doc_of [with_speed 0 1, with_speed 10 2, with_speed 20 3,
        with_speed 30 4])) = Some 2"
proof -
  let ?xs = "[with_speed 0 5, with_speed 10 1, with_speed 20 3]"
  let ?ys = "[with_speed 10 1, with_speed 20 3, with_speed 0 5]"
  let ?zs = "[with_speed 0 1, with_speed 10 2, with_speed 20 3, with_speed 30 4]"
  have h1: "Actions (doc_of ?xs) = Some ?xs" by (simp add: doc_of_def)
  have h2: "?xs \<noteq> []" by simp
  have h3: "mset ?ys = mset ?xs \<and> sorted_wrt (\<lambda>a b. fle (Speed a) (Speed b)) ?ys"
    by (simp add: with_speed_def)
  have h4: "\<forall>a\<in>set ?xs. Speed a \<noteq> NaN" by (simp add: with_speed_def)
  have "fst (CalculateMedian (doc_of ?xs)) =
      Some (if odd (length ?xs)
            then int64_of_float64 (Speed (?ys ! (length ?xs div 2)))
            else int64_of_float64
              (fdiv (fadd (Speed (?ys ! (length ?xs div 2 - 1)))
                          (Speed (?ys ! (length ?xs div 2)))) (Fin 2)))"
    using CalculateMedian_median [OF h1 h2] h3 by blast
  then have a: "fst (CalculateMedian (doc_of ?xs)) = Some 3"
    by (simp add: with_speed_def int64_of_float64_def trunc_def)
  have b: "\<exists>ys. mset ys = mset ?xs \<and> sorted_wrt (\<lambda>a b. fle (Speed a) (Speed b)) ys"
    using CalculateMedian_median [OF h1 h2] h4 by blast
  have z1: "Actions (doc_of ?zs) = Some ?zs" by (simp add: doc_of_def)
  have z2: "?zs \<noteq> []" by simp
  have z3: "map Speed ?zs = [Fin 1, Fin 2, Fin 3, Fin 4]" by (simp add: with_speed_def)
  have c: "fst (CalculateMedian (doc_of ?zs)) = Some 2"
    using CalculateMedian_median [OF z1 z2] z3 by blast
  show ?thesis using a b c by blast
qed

section \<open>\<open>getSegmentColor\<close>\<close>

text \<open>
  The colours come from the package \<open>go-colorful\<close>, which is not part of the repository.
  Its operations are parameters: \<open>Hex\<close> parses a colour (the six strings of the program
  are well-formed, and the error result is discarded there), \<open>BlendLab\<close>, \<open>BlendRgb\<close>
  and \<open>BlendHcl\<close> blend two colours at a fraction in the named colour space, and
  \<open>Clamped\<close> clamps a colour into the valid range.
\<close>

record 'c colorful =
  Hex :: "string \<Rightarrow> 'c"
  BlendLab :: "'c \<Rightarrow> 'c \<Rightarrow> float64 \<Rightarrow> 'c"
  BlendRgb :: "'c \<Rightarrow> 'c \<Rightarrow> float64 \<Rightarrow> 'c"
  BlendHcl :: "'c \<Rightarrow> 'c \<Rightarrow> float64 \<Rightarrow> 'c"
  Clamped :: "'c \<Rightarrow> 'c"

text \<open>
  The \<open>switch\<close> takes the first case that holds. The constant \<open>0.001\<close> is the \<open>float64\<close>
  nearest to it; \<open>stepSize\<close> is a variable, so its products are computed in \<open>float64\<close>.
\<close>

definition getSegmentColor :: "('c, 'z) colorful_scheme \<Rightarrow> float64 \<Rightarrow> 'c" where
  "getSegmentColor L intensity =
     (let colorBlue = Hex L ''#1e90ff'';
          colorGreen = Hex L ''#228b22'';
          colorYellow = Hex L ''#ffd700'';
          colorRed = Hex L ''#dc143c'';
          colorPurple = Hex L ''#800080'';
          colorBlack = Hex L ''#0f001e'';
          colorBackground = Hex L ''#30404d'';
          stepSize = Fin 60
      in if fle intensity (round64 (1 / 1000)) then colorBackground
         else if fle intensity (fmul (Fin 1) stepSize) then
           BlendLab L colorBlue colorGreen
             (fdiv (fsub intensity (fmul (Fin 0) stepSize)) stepSize)
         else if fle intensity (fmul (Fin 2) stepSize) then
           BlendLab L colorGreen colorYellow
             (fdiv (fsub intensity (fmul (Fin 1) stepSize)) stepSize)
         else if fle intensity (fmul (Fin 3) stepSize) then
           BlendLab L colorYellow colorRed
             (fdiv (fsub intensity (fmul (Fin 2) stepSize)) stepSize)
         else if fle intensity (fmul (Fin 4) stepSize) then
           BlendRgb L colorRed colorPurple
             (fdiv (fsub intensity (fmul (Fin 3) stepSize)) stepSize)
         else
           BlendLab L colorPurple colorBlack
             (fmin (fdiv (fsub intensity (fmul (Fin 4) stepSize)) (fmul (Fin 5) stepSize))
                (Fin 1)))"

subsection \<open>The branches\<close>

lemma round64_numeral:
  "numeral n \<le> (2::int) ^ 53 \<Longrightarrow> round64 (numeral n) = Fin (numeral n)"
  using round64_of_int [of "numeral n"] by simp

lemma round64_1 [simp]: "round64 1 = Fin 1"
  using round64_of_int [of 1] by simp

lemma thousandth: "round64 (1 / 1000) = Fin (1152921504606847 / 2 ^ 60)"
  by (simp add: float_eval)

lemma not_fle_above:
  assumes "fle (Fin a) i" "b < a"
  shows "\<not> fle i (Fin b)"
  using assms by (cases i) simp_all

lemma saturated_fraction:
  assumes "fle (Fin 540) i"
  shows "fmin (fdiv (fsub i (Fin 240)) (Fin 300)) (Fin 1) = Fin 1"
proof (cases i)
  case (Fin x)
  then have x: "540 \<le> x" using assms by simp
  have "fle (round64 300) (round64 (x - 240))" using x by (intro round64_mono) simp
  then have d: "fle (Fin 300) (fsub i (Fin 240))" by (simp add: Fin round64_numeral)
  show ?thesis
  proof (cases "fsub i (Fin 240)")
    case y: (Fin y)
    then have "300 \<le> y" using d by simp
    then have "fle (round64 1) (round64 (y / 300))" by (intro round64_mono) simp
    then have "\<not> flt (fdiv (Fin y) (Fin 300)) (Fin 1)"
      by (cases "round64 (y / 300)") simp_all
    moreover have "fdiv (Fin y) (Fin 300) \<noteq> NInf" "fdiv (Fin y) (Fin 300) \<noteq> NaN"
      using \<open>fle (round64 1) (round64 (y / 300))\<close> by (cases "round64 (y / 300)"; simp)+
    ultimately show ?thesis by (simp add: y fmin_def)
  next
    case PInf
    then show ?thesis by (simp add: fmin_def)
  next
    case NInf
    then show ?thesis using d by simp
  next
    case NaN
    then show ?thesis using d by simp
  qed
next
  case PInf
  then show ?thesis by (simp add: fmin_def)
next
  case NInf
  then show ?thesis using assms by simp
next
  case NaN
  then show ?thesis using assms by simp
qed


text \<open>
  A stand-in for the package in the examples: a colour is its hex string, a blend at
  fraction 1 is the second colour and at fraction 0 the first, and any other blend is a
  string that names the space and the two colours.
\<close>

definition sample_blend :: "string \<Rightarrow> string \<Rightarrow> string \<Rightarrow> float64 \<Rightarrow> string" where
  "sample_blend space a b f =
     (if f = Fin 1 then b else if f = Fin 0 then a else space @ ''('' @ a @ '','' @ b @ '')'')"

definition sample_colorful :: "string colorful" where
  "sample_colorful =
     \<lparr>Hex = (\<lambda>s. s), BlendLab = sample_blend ''lab'', BlendRgb = sample_blend ''rgb'',
      BlendHcl = sample_blend ''hcl'', Clamped = (\<lambda>c. c)\<rparr>"

text \<open>
  A second stand-in, with arithmetic. A colour is its three channels; \<open>Hex\<close> reads a
  channel as a byte times \<open>1/255\<close>; every blend interpolates each coordinate as
  \<open>c1 + t * (c2 - c1)\<close> in \<open>float64\<close>, the form in which the package interpolates, with the
  change of colour space left out. At fraction 1 a coordinate is \<open>c1 + (c2 - c1)\<close>,
  which is rounded twice.
\<close>

definition hex_digit :: "char \<Rightarrow> int" where
  "hex_digit c =
     (let n = int (of_char c)
      in if 48 \<le> n \<and> n \<le> 57 then n - 48 else if 97 \<le> n \<and> n \<le> 102 then n - 87 else 0)"

definition channel :: "char \<Rightarrow> char \<Rightarrow> float64" where
  "channel hi lo = fmul (float64_of_int (16 * hex_digit hi + hex_digit lo)) (round64 (1 / 255))"

fun linear_Hex :: "string \<Rightarrow> float64 \<times> float64 \<times> float64" where
  "linear_Hex [h, r1, r2, g1, g2, b1, b2] = (channel r1 r2, channel g1 g2, channel b1 b2)"
| "linear_Hex s = (Fin 0, Fin 0, Fin 0)"

definition lerp :: "float64 \<Rightarrow> float64 \<Rightarrow> float64 \<Rightarrow> float64" where
  "lerp a b t = fadd a (fmul t (fsub b a))"

fun linear_blend ::
  "float64 \<times> float64 \<times> float64 \<Rightarrow> float64 \<times> float64 \<times> float64 \<Rightarrow> float64 \<Rightarrow>
   float64 \<times> float64 \<times> float64" where
  "linear_blend (r1, g1, b1) (r2, g2, b2) t = (lerp r1 r2 t, lerp g1 g2 t, lerp b1 b2 t)"

definition linear_colorful :: "(float64 \<times> float64 \<times> float64) colorful" where
  "linear_colorful =
     \<lparr>Hex = linear_Hex, BlendLab = linear_blend, BlendRgb = linear_blend,
      BlendHcl = linear_blend, Clamped = (\<lambda>c. c)\<rparr>"

lemma factor_255: "round64 (1 / 255) = Fin (282578800148737 / 2 ^ 56)"
  by (simp add: float_eval)

lemma channel_ff: "channel CHR ''f'' CHR ''f'' = Fin 1"
  by (simp add: channel_def hex_digit_def factor_255 float_eval)

lemma channel_22: "channel CHR ''2'' CHR ''2'' = Fin (4803839602528529 / 2 ^ 55)"
  by (simp add: channel_def hex_digit_def factor_255 float_eval)

lemma channel_80: "channel CHR ''8'' CHR ''0'' = Fin (282578800148737 / 2 ^ 49)"
  by (simp add: channel_def hex_digit_def factor_255 float_eval)

lemma channel_0f: "channel CHR ''0'' CHR ''f'' = Fin (4238682002231055 / 2 ^ 56)"
  by (simp add: channel_def hex_digit_def factor_255 float_eval)

lemma getSegmentColor_60:
  "getSegmentColor L (Fin 60) = BlendLab L (Hex L ''#1e90ff'') (Hex L ''#228b22'') (Fin 1)"
  by (simp add: getSegmentColor_def Let_def thousandth round64_numeral)

lemma getSegmentColor_540:
  "getSegmentColor L (Fin 540) = BlendLab L (Hex L ''#800080'') (Hex L ''#0f001e'') (Fin 1)"
proof -
  have "fmin (fdiv (fsub (Fin 540) (Fin 240)) (Fin 300)) (Fin 1) = Fin 1"
    by (rule saturated_fraction) simp
  then show ?thesis by (simp add: getSegmentColor_def Let_def thousandth round64_numeral)
qed

text \<open>
  Claim C6 fails where it says that the colours at 60 and from 540 on are exactly the
  green and the black anchor: these colours are blends at fraction 1, and a blend need
  not return its second colour. With the interpolating library the blue channel at
  intensity 60 is one unit in the last place below that of \<open>#228b22\<close>, and the red channel
  at intensity 540 is one above that of \<open>#0f001e\<close>.
\<close>

theorem getSegmentColor_misses_anchors:
  "getSegmentColor linear_colorful (Fin 60) \<noteq> Hex linear_colorful ''#228b22''
   \<and> snd (snd (getSegmentColor linear_colorful (Fin 60))) = Fin (4803839602528528 / 2 ^ 55)
   \<and> snd (snd (Hex linear_colorful ''#228b22'')) = Fin (4803839602528529 / 2 ^ 55)
   \<and> getSegmentColor linear_colorful (Fin 540) \<noteq> Hex linear_colorful ''#0f001e''
   \<and> fst (getSegmentColor linear_colorful (Fin 540)) = Fin (264917625139441 / 2 ^ 52)
   \<and> fst (Hex linear_colorful ''#0f001e'') = Fin (4238682002231055 / 2 ^ 56)"
proof -
  have a: "snd (snd (getSegmentColor linear_colorful (Fin 60))) = Fin (4803839602528528 / 2 ^ 55)"
    unfolding getSegmentColor_60
    by (simp add: linear_colorful_def channel_ff channel_22 lerp_def float_eval)
  have b: "snd (snd (Hex linear_colorful ''#228b22'')) = Fin (4803839602528529 / 2 ^ 55)"
    by (simp add: linear_colorful_def channel_22)
  have c: "fst (getSegmentColor linear_colorful (Fin 540)) = Fin (264917625139441 / 2 ^ 52)"
    unfolding getSegmentColor_540
    by (simp add: linear_colorful_def channel_80 channel_0f lerp_def float_eval)
  have d: "fst (Hex linear_colorful ''#0f001e'') = Fin (4238682002231055 / 2 ^ 56)"
    by (simp add: linear_colorful_def channel_0f)
  have "getSegmentColor linear_colorful (Fin 60) \<noteq> Hex linear_colorful ''#228b22''"
    using a b by auto
  moreover have "getSegmentColor linear_colorful (Fin 540) \<noteq> Hex linear_colorful ''#0f001e''"
    using c d by auto
  ultimately show ?thesis using a b c d by simp
qed

text \<open>
  Claim C6, amended. \<open>getSegmentColor\<close> blends piecewise with step 60. An intensity of
  at most \<open>0.001\<close> gives the background colour itself. Intensity 60 gives the blend of
  blue and green in Lab at fraction 1, and every intensity from 540 on gives the blend
  of purple and black in Lab at the fraction clamped to 1; these are the green anchor and
  the black endpoint when a Lab blend at fraction 1 returns its second colour, which is
  a property of the package and not of this file. In \<open>(180, 240]\<close> red and purple are
  blended by \<open>BlendRgb\<close>; the branches \<open>(0.001, 60]\<close>, \<open>(60, 120]\<close>, \<open>(120, 180]\<close> and the
  last one, for everything not at most 240, blend by \<open>BlendLab\<close>.
\<close>

theorem getSegmentColor_branches:
  "(fle i (round64 (1 / 1000)) \<longrightarrow> getSegmentColor L i = Hex L ''#30404d'')
   \<and> getSegmentColor L (Fin 60) = BlendLab L (Hex L ''#1e90ff'') (Hex L ''#228b22'') (Fin 1)
   \<and> (fle (Fin 540) i \<longrightarrow>
        getSegmentColor L i = BlendLab L (Hex L ''#800080'') (Hex L ''#0f001e'') (Fin 1))
   \<and> (flt (Fin 180) i \<and> fle i (Fin 240) \<longrightarrow>
        getSegmentColor L i =
          BlendRgb L (Hex L ''#dc143c'') (Hex L ''#800080'') (fdiv (fsub i (Fin 180)) (Fin 60)))
   \<and> (\<not> fle i (round64 (1 / 1000)) \<and> fle i (Fin 60) \<longrightarrow>
        getSegmentColor L i =
          BlendLab L (Hex L ''#1e90ff'') (Hex L ''#228b22'') (fdiv (fsub i (Fin 0)) (Fin 60)))
   \<and> (\<not> fle i (Fin 60) \<and> fle i (Fin 120) \<longrightarrow>
        getSegmentColor L i =
          BlendLab L (Hex L ''#228b22'') (Hex L ''#ffd700'') (fdiv (fsub i (Fin 60)) (Fin 60)))
   \<and> (\<not> fle i (Fin 120) \<and> fle i (Fin 180) \<longrightarrow>
        getSegmentColor L i =
          BlendLab L (Hex L ''#ffd700'') (Hex L ''#dc143c'') (fdiv (fsub i (Fin 120)) (Fin 60)))
   \<and> (\<not> fle i (Fin 240) \<longrightarrow>
        getSegmentColor L i =
          BlendLab L (Hex L ''#800080'') (Hex L ''#0f001e'')
            (fmin (fdiv (fsub i (Fin 240)) (Fin 300)) (Fin 1)))
   \<and> ((\<forall>a b. BlendLab L a b (Fin 1) = b) \<longrightarrow>
        getSegmentColor L (Fin 60) = Hex L ''#228b22''
        \<and> (fle (Fin 540) i \<longrightarrow> getSegmentColor L i = Hex L ''#0f001e''))"
proof -
  have bg: "getSegmentColor L i = Hex L ''#30404d''" if "fle i (round64 (1 / 1000))"
    using that by (simp add: getSegmentColor_def Let_def round64_numeral)
  have sixty: "getSegmentColor L (Fin 60) = BlendLab L (Hex L ''#1e90ff'') (Hex L ''#228b22'') (Fin 1)"
    by (simp add: getSegmentColor_def Let_def thousandth round64_numeral)
  have top: "getSegmentColor L i =
      BlendLab L (Hex L ''#800080'') (Hex L ''#0f001e'')
        (fmin (fdiv (fsub i (Fin 240)) (Fin 300)) (Fin 1))" if "\<not> fle i (Fin 240)"
  proof -
    have "\<not> fle i (round64 (1 / 1000))" "\<not> fle i (Fin 60)" "\<not> fle i (Fin 120)"
      "\<not> fle i (Fin 180)"
      using that by (cases i; simp add: thousandth)+
    then show ?thesis using that by (simp add: getSegmentColor_def Let_def round64_numeral)
  qed
  have sat: "getSegmentColor L i = BlendLab L (Hex L ''#800080'') (Hex L ''#0f001e'') (Fin 1)"
    if "fle (Fin 540) i"
  proof -
    have "\<not> fle i (Fin 240)" using that by (rule not_fle_above) simp
    then show ?thesis using top saturated_fraction [OF that] by simp
  qed
  have rgb: "getSegmentColor L i =
      BlendRgb L (Hex L ''#dc143c'') (Hex L ''#800080'') (fdiv (fsub i (Fin 180)) (Fin 60))"
    if "flt (Fin 180) i \<and> fle i (Fin 240)"
  proof -
    have "\<not> fle i (round64 (1 / 1000))" "\<not> fle i (Fin 60)" "\<not> fle i (Fin 120)"
      "\<not> fle i (Fin 180)"
      using that by (cases i; simp add: thousandth)+
    then show ?thesis using that by (simp add: getSegmentColor_def Let_def round64_numeral)
  qed
  have b1: "getSegmentColor L i =
      BlendLab L (Hex L ''#1e90ff'') (Hex L ''#228b22'') (fdiv (fsub i (Fin 0)) (Fin 60))"
    if "\<not> fle i (round64 (1 / 1000)) \<and> fle i (Fin 60)"
    using that by (simp add: getSegmentColor_def Let_def round64_numeral)
  have b2: "getSegmentColor L i =
      BlendLab L (Hex L ''#228b22'') (Hex L ''#ffd700'') (fdiv (fsub i (Fin 60)) (Fin 60))"
    if "\<not> fle i (Fin 60) \<and> fle i (Fin 120)"
  proof -
    have "\<not> fle i (round64 (1 / 1000))" using that by (cases i; simp add: thousandth)
    then show ?thesis using that by (simp add: getSegmentColor_def Let_def round64_numeral)
  qed
  have b3: "getSegmentColor L i =
      BlendLab L (Hex L ''#ffd700'') (Hex L ''#dc143c'') (fdiv (fsub i (Fin 120)) (Fin 60))"
    if "\<not> fle i (Fin 120) \<and> fle i (Fin 180)"
  proof -
    have "\<not> fle i (round64 (1 / 1000))" "\<not> fle i (Fin 60)"
      using that by (cases i; simp add: thousandth)+
    then show ?thesis using that by (simp add: getSegmentColor_def Let_def round64_numeral)
  qed
  show ?thesis
    using bg sixty top sat rgb b1 b2 b3 by (intro conjI impI) simp_all
qed

theorem getSegmentColor_branches_witness:
  "getSegmentColor sample_colorful (Fin 0) = ''#30404d''
   \<and> getSegmentColor sample_colorful (Fin 60) = ''#228b22''
   \<and> getSegmentColor sample_colorful (Fin 1000) = ''#0f001e''
   \<and> getSegmentColor sample_colorful (Fin 240) = ''#800080''
   \<and> getSegmentColor sample_colorful (Fin 120) = ''#ffd700''
   \<and> getSegmentColor sample_colorful (Fin 180) = ''#dc143c''
   \<and> getSegmentColor sample_colorful PInf = ''#0f001e''"
proof -
  have law: "\<forall>a b. BlendLab sample_colorful a b (Fin 1) = b"
    by (simp add: sample_colorful_def sample_blend_def)
  have "getSegmentColor sample_colorful (Fin 0) = ''#30404d''"
    using getSegmentColor_branches [of "Fin 0" sample_colorful]
    by (simp add: thousandth sample_colorful_def)
  moreover have "getSegmentColor sample_colorful (Fin 60) = ''#228b22''"
    using getSegmentColor_branches [of "Fin 60" sample_colorful] law
    by (simp add: sample_colorful_def)
  moreover have "getSegmentColor sample_colorful (Fin 1000) = ''#0f001e''"
    using getSegmentColor_branches [of "Fin 1000" sample_colorful] law
    by (simp add: sample_colorful_def)
  moreover have "getSegmentColor sample_colorful (Fin 240) = ''#800080''"
    using getSegmentColor_branches [of "Fin 240" sample_colorful]
    by (simp add: round64_numeral sample_colorful_def sample_blend_def)
  moreover have "getSegmentColor sample_colorful (Fin 120) = ''#ffd700''"
    using getSegmentColor_branches [of "Fin 120" sample_colorful]
    by (simp add: round64_numeral sample_colorful_def sample_blend_def)
  moreover have "getSegmentColor sample_colorful (Fin 180) = ''#dc143c''"
    using getSegmentColor_branches [of "Fin 180" sample_colorful]
    by (simp add: round64_numeral sample_colorful_def sample_blend_def)
  moreover have "getSegmentColor sample_colorful PInf = ''#0f001e''"
    using getSegmentColor_branches [of PInf sample_colorful] law
    by (simp add: sample_colorful_def)
  ultimately show ?thesis by simp
qed

section \<open>\<open>getGradientTable\<close>\<close>

text \<open>
  A segment is the anonymous struct of the \<open>segments\<close> slice; \<open>yRange\<close> is the pair of
  \<open>yRange[0]\<close> and \<open>yRange[1]\<close>. A stop is the struct of \<open>GradientTable\<close>, with its
  position under the name \<open>StopPos\<close>.
\<close>

record segment =
  seg_count :: int
  seg_intensity :: int
  seg_yRange :: "float64 \<times> float64"
  seg_at :: int

record 'c stop =
  Col :: 'c
  StopPos :: float64
  YRange :: "float64 \<times> float64"

definition segment_zero :: segment where
  "segment_zero = \<lparr>seg_count = 0, seg_intensity = 0, seg_yRange = (Fin 0, Fin 0), seg_at = 0\<rparr>"

definition windowSize :: nat where
  "windowSize = 15"

definition backfillThreshold :: int where
  "backfillThreshold = 500"

text \<open>
  One iteration of the binning loop, for the action \<open>a\<close>, on the window \<open>posList\<close> and the
  segments. The state is \<open>None\<close> once an index expression has panicked. The sums and
  \<open>maxts + 1\<close> are integer arithmetic and wrap; \<open>count\<close> counts actions of a slice and
  cannot.
\<close>

definition bin_step ::
  "int \<Rightarrow> int \<Rightarrow> (int list \<times> segment list) option \<Rightarrow> Action \<Rightarrow>
   (int list \<times> segment list) option" where
  "bin_step numSegments maxts st a =
     (case st of
        None \<Rightarrow> None
      | Some (posList0, segments) \<Rightarrow>
          let posList1 = posList0 @ [Pos a];
              posList = (if length posList1 > windowSize then tl posList1 else posList1);
              sortedPos = sort posList;
              topHalf = drop (length sortedPos div 2) sortedPos;
              bottomHalf = take (length sortedPos div 2) sortedPos;
              totalBottom = foldl (\<lambda>t v. wrap64 (t + v)) 0 bottomHalf;
              totalTop = foldl (\<lambda>t v. wrap64 (t + v)) 0 topHalf;
              averageBottom =
                fdiv (float64_of_int totalBottom) (float64_of_int (int (length bottomHalf)));
              averageTop =
                fdiv (float64_of_int totalTop) (float64_of_int (int (length topHalf)));
              segment0 = int64_of_float64
                (fmul (fdiv (float64_of_int (At a)) (float64_of_int (wrap64 (maxts + 1))))
                   (float64_of_int numSegments));
              segment = (if segment0 \<ge> numSegments then numSegments - 1 else segment0)
          in if segment < 0 \<or> int (length segments) \<le> segment then None
             else
               let s = segments ! nat segment
               in Some (posList,
                    segments[nat segment :=
                      s\<lparr>seg_at := At a,
                        seg_count := seg_count s + 1,
                        seg_intensity := wrap64 (seg_intensity s + Intensity a),
                        seg_yRange := (averageTop, averageBottom)\<rparr>]))"

text \<open>One iteration of the loop that fills the gaps, at index \<open>i\<close>.\<close>

definition backfill_step ::
  "int \<Rightarrow> segment list \<times> segment \<Rightarrow> nat \<Rightarrow> segment list \<times> segment" where
  "backfill_step numSegments st i =
     (case st of
        (segments, lastSegment) \<Rightarrow>
          let segmentTS =
                int64_of_float64 (fdiv (float64_of_int (int i)) (float64_of_int numSegments))
          in if seg_count (segments ! i) = 0 then
               (if wrap64 (segmentTS - seg_at lastSegment) < backfillThreshold
                then (segments[i := (segments ! i)
                         \<lparr>seg_count := seg_count lastSegment,
                          seg_intensity := seg_intensity lastSegment,
                          seg_yRange := seg_yRange lastSegment\<rparr>],
                      lastSegment)
                else (segments, lastSegment))
             else (segments, segments ! i))"

definition backfill :: "int \<Rightarrow> segment list \<Rightarrow> segment list" where
  "backfill numSegments segments =
     fst (foldl (backfill_step numSegments) (segments, segments ! 0) [0..<nat numSegments])"

text \<open>
  The segments after the binning loop and the loop that fills the gaps. \<open>make\<close> panics
  on a negative length, \<open>Actions[len - 1]\<close> on an empty slice, and \<open>segments[0]\<close> on an
  empty one.
\<close>

definition binned :: "Script \<Rightarrow> int \<Rightarrow> segment list option" where
  "binned funscript numSegments =
     (if numSegments < 0 then None
      else
        let acts = (case Actions funscript of None \<Rightarrow> [] | Some xs \<Rightarrow> xs)
        in if acts = [] then None
           else
             (case foldl (bin_step numSegments (At (last acts)))
                     (Some ([], replicate (nat numSegments) segment_zero)) acts of
                None \<Rightarrow> None
              | Some (posList, segments) \<Rightarrow> if segments = [] then None else Some segments))"

text \<open>
  The last loop assigns every stop once, in index order, from the segment of the same
  index.
\<close>

definition stop_of :: "('c, 'z) colorful_scheme \<Rightarrow> int \<Rightarrow> segment list \<Rightarrow> nat \<Rightarrow> 'c stop" where
  "stop_of L numSegments segments i =
     \<lparr>Col = (if seg_count (segments ! i) > 0
              then getSegmentColor L
                     (fdiv (float64_of_int (seg_intensity (segments ! i)))
                           (float64_of_int (seg_count (segments ! i))))
              else getSegmentColor L (Fin 0)),
      StopPos = fdiv (float64_of_int (int i)) (float64_of_int (numSegments - 1)),
      YRange = seg_yRange (segments ! i)\<rparr>"

definition getGradientTable ::
  "('c, 'z) colorful_scheme \<Rightarrow> Script \<Rightarrow> int \<Rightarrow> 'c stop list option" where
  "getGradientTable L funscript numSegments =
     (case binned funscript numSegments of
        None \<Rightarrow> None
      | Some segments \<Rightarrow>
          Some (map (stop_of L numSegments (backfill numSegments segments))
                  [0..<nat numSegments]))"

subsection \<open>The segments of validated actions\<close>

definition at_ok :: "segment \<Rightarrow> bool" where
  "at_ok s \<longleftrightarrow> 0 \<le> seg_at s \<and> seg_at s < 2 ^ 63"

lemma bin_step_inv:
  assumes "bin_step n maxts (Some (pl, segs)) a = Some (pl', segs')"
    and "0 \<le> At a" "At a < 2 ^ 63" "\<forall>s\<in>set segs. at_ok s"
  shows "length segs' = length segs \<and> (\<forall>s\<in>set segs'. at_ok s)"
proof -
  from assms(1) obtain k s' where k: "segs' = segs[k := s']" "seg_at s' = At a"
    by (auto simp: bin_step_def Let_def split: if_splits)
  have "at_ok s'" using k(2) assms(2,3) by (simp add: at_ok_def)
  then show ?thesis using k(1) assms(4) by (auto dest!: set_update_subset_insert [THEN subsetD])
qed

lemma bin_fold_inv:
  assumes "foldl (bin_step n maxts) (Some (pl, segs)) acts = Some (pl', segs')"
    and "\<forall>a\<in>set acts. 0 \<le> At a \<and> At a < 2 ^ 63" "\<forall>s\<in>set segs. at_ok s"
  shows "length segs' = length segs \<and> (\<forall>s\<in>set segs'. at_ok s)"
  using assms
proof (induction acts arbitrary: pl segs)
  case Nil
  then show ?case by simp
next
  case (Cons a acts)
  show ?case
  proof (cases "bin_step n maxts (Some (pl, segs)) a")
    case None
    have "foldl (bin_step n maxts) None acts = None"
      by (induction acts) (simp_all add: bin_step_def)
    then show ?thesis using Cons.prems(1) None by simp
  next
    case (Some st)
    obtain pl1 segs1 where st: "st = (pl1, segs1)" by (cases st)
    have inv: "length segs1 = length segs \<and> (\<forall>s\<in>set segs1. at_ok s)"
      using bin_step_inv [of n maxts pl segs a pl1 segs1] Some st Cons.prems(2,3) by simp
    have "foldl (bin_step n maxts) (Some (pl1, segs1)) acts = Some (pl', segs')"
      using Cons.prems(1) Some st by simp
    then have "length segs' = length segs1 \<and> (\<forall>s\<in>set segs'. at_ok s)"
      using Cons.prems(2) inv by (intro Cons.IH) simp_all
    then show ?thesis using inv by simp
  qed
qed

lemma binned_inv:
  assumes "binned funscript n = Some segs" "Actions funscript = Some acts"
    and "\<forall>a\<in>set acts. 0 \<le> At a \<and> At a < 2 ^ 63"
  shows "length segs = nat n \<and> 0 < n \<and> (\<forall>s\<in>set segs. at_ok s)"
proof -
  from assms(1,2) obtain pl where
    f: "foldl (bin_step n (At (last acts))) (Some ([], replicate (nat n) segment_zero)) acts
          = Some (pl, segs)" and ne: "segs \<noteq> []" and n0: "0 \<le> n"
    by (auto simp: binned_def Let_def split: if_splits option.splits)
  have z: "\<forall>s\<in>set (replicate (nat n) segment_zero). at_ok s"
    by (simp add: at_ok_def segment_zero_def)
  have "length segs = length (replicate (nat n) segment_zero) \<and> (\<forall>s\<in>set segs. at_ok s)"
    using f assms(3) z by (rule bin_fold_inv)
  then show ?thesis using ne n0 by (cases "n = 0") auto
qed


subsection \<open>The timestamp of a bin\<close>

lemma nearest_2_63: "nearest (2 ^ 63) = 2 ^ 63"
proof -
  have "(2::real) ^ 63 = of_int 1 * pow2 63" using pow2_nat [of 63] by simp
  then show ?thesis by (rule nearest_grid) simp_all
qed

lemma of_int_le_pow: "k \<le> 2 ^ m \<Longrightarrow> real_of_int k \<le> 2 ^ m"
proof -
  assume "k \<le> 2 ^ m"
  then have "real_of_int k \<le> real_of_int (2 ^ m)" by (simp only: of_int_le_iff)
  then show ?thesis by simp
qed

lemma of_int_ge_neg_pow: "- (2 ^ m) \<le> k \<Longrightarrow> - (2 ^ m) \<le> real_of_int k"
proof -
  assume "- (2 ^ m) \<le> k"
  then have "real_of_int (- (2 ^ m)) \<le> real_of_int k" by (simp only: of_int_le_iff)
  then show ?thesis by simp
qed

lemma float64_of_int_Fin:
  assumes "- (2 ^ 63) \<le> k" "k \<le> 2 ^ 63"
  shows "float64_of_int k = Fin (nearest (of_int k))"
proof -
  have r: "- (2 ^ 63) \<le> real_of_int k" "real_of_int k \<le> 2 ^ 63"
    using assms by (simp_all only: of_int_le_pow of_int_ge_neg_pow)
  have "nearest (real_of_int k) \<le> 2 ^ 63"
    using nearest_mono [OF r(2)] by (simp only: nearest_2_63)
  moreover have "- (2 ^ 63) \<le> nearest (real_of_int k)"
    using nearest_mono [OF r(1)] by (simp only: nearest_minus nearest_2_63)
  moreover have "(2::real) ^ 63 < pow2 1024"
  proof -
    have "(2::real) ^ 63 = pow2 63" using pow2_nat [of 63] by simp
    also have "\<dots> < pow2 1024" by simp
    finally show ?thesis .
  qed
  ultimately have "\<bar>nearest (real_of_int k)\<bar> < pow2 1024" by linarith
  then show ?thesis by (simp add: float64_of_int_def round64_def)
qed

lemma nearest_unit_interval:
  assumes "0 \<le> x" "x \<le> 1"
  shows "0 \<le> nearest x" "nearest x \<le> 1"
  using nearest_mono [OF assms(1)] nearest_mono [OF assms(2)] by simp_all

lemma pow2_1024_gt_1: "1 < pow2 1024"
  using pow2_less_iff [of 0 1024] by (simp add: pow2_def)

lemma round64_unit_interval:
  assumes "0 \<le> x" "x \<le> 1"
  shows "round64 x = Fin (nearest x)"
  using nearest_unit_interval [OF assms] pow2_1024_gt_1 by (simp add: round64_def)

lemma nearest_below_1:
  assumes "0 \<le> x" "x \<le> 1 - 1 / 2 ^ 53"
  shows "nearest x < 1"
proof -
  have g: "1 - 1 / 2 ^ 53 = real_of_int (2 ^ 53 - 1) * pow2 (- 53)"
    using pow2_neg_nat [of 53] by (simp add: field_simps)
  have "nearest (1 - 1 / 2 ^ 53) = 1 - 1 / 2 ^ 53"
    by (rule nearest_grid [OF g]) simp_all
  then have "nearest x \<le> 1 - 1 / 2 ^ 53" using nearest_mono [OF assms(2)] by simp
  then show ?thesis by (simp add: field_simps) 
qed

text \<open>The quotient of two converted integers \<open>0 \<le> i \<le> n\<close>, \<open>n > 0\<close>, is a \<open>float64\<close> in \<open>[0, 1]\<close>.\<close>

lemma fdiv_ints_unit:
  assumes "0 \<le> i" "i \<le> n" "0 < n" "n \<le> 2 ^ 63"
  shows "\<exists>q. fdiv (float64_of_int i) (float64_of_int n) = Fin q \<and> 0 \<le> q \<and> q \<le> 1"
proof -
  let ?a = "nearest (of_int i)" and ?b = "nearest (of_int n)"
  have fi: "float64_of_int i = Fin ?a" using assms by (intro float64_of_int_Fin) simp_all
  have fn: "float64_of_int n = Fin ?b" using assms by (intro float64_of_int_Fin) simp_all
  have a0: "0 \<le> ?a" using assms(1) by (intro nearest_nonneg) simp
  have ab: "?a \<le> ?b" using assms(2) by (intro nearest_mono) simp
  have "nearest 1 \<le> ?b" using assms(3) by (intro nearest_mono) simp
  then have b1: "1 \<le> ?b" by simp
  have q: "0 \<le> ?a / ?b" "?a / ?b \<le> 1" using a0 ab b1 by simp_all
  have "fdiv (Fin ?a) (Fin ?b) = Fin (nearest (?a / ?b))"
    using b1 round64_unit_interval [OF q] by simp
  then show ?thesis using nearest_unit_interval [OF q] fi fn by simp
qed

lemma segmentTS_range:
  assumes "0 \<le> i" "i < n" "n < 2 ^ 63"
  shows "0 \<le> int64_of_float64 (fdiv (float64_of_int i) (float64_of_int n))"
    and "int64_of_float64 (fdiv (float64_of_int i) (float64_of_int n)) \<le> 1"
proof -
  obtain q where q: "fdiv (float64_of_int i) (float64_of_int n) = Fin q" "0 \<le> q" "q \<le> 1"
    using fdiv_ints_unit [of i n] assms by auto
  have "0 \<le> \<lfloor>q\<rfloor>" "\<lfloor>q\<rfloor> \<le> 1" using q(2,3) by (simp_all add: floor_le_iff)
  then show "0 \<le> int64_of_float64 (fdiv (float64_of_int i) (float64_of_int n))"
    and "int64_of_float64 (fdiv (float64_of_int i) (float64_of_int n)) \<le> 1"
    using q by (simp_all add: int64_of_float64_def trunc_def)
qed

lemma segmentTS_zero:
  assumes "0 \<le> i" "i < n" "n \<le> 2 ^ 53"
  shows "int64_of_float64 (fdiv (float64_of_int i) (float64_of_int n)) = 0"
proof -
  have fi: "float64_of_int i = Fin (of_int i)" using assms by (intro float64_of_int_exact) simp
  have fn: "float64_of_int n = Fin (of_int n)" using assms by (intro float64_of_int_exact) simp
  have n0: "0 < real_of_int n" using assms by simp
  have rn: "real_of_int n \<le> 2 ^ 53" using assms(3) by (rule of_int_le_pow)
  have "real_of_int i + 1 \<le> real_of_int n" using assms(2) by linarith
  then have "real_of_int i / real_of_int n \<le> 1 - 1 / real_of_int n"
    using n0 by (simp add: field_simps)
  also have "\<dots> \<le> 1 - 1 / 2 ^ 53"
    using n0 rn by (simp add: field_simps)
  finally have up: "real_of_int i / real_of_int n \<le> 1 - 1 / 2 ^ 53" .
  have lo: "0 \<le> real_of_int i / real_of_int n" using assms(1) n0 by simp
  have "(1::real) - 1 / 2 ^ 53 \<le> 1" by simp
  then have up1: "real_of_int i / real_of_int n \<le> 1" using up by linarith
  have lt: "nearest (real_of_int i / real_of_int n) < 1" using lo up by (rule nearest_below_1)
  have ge: "0 \<le> nearest (real_of_int i / real_of_int n)" using lo by (rule nearest_nonneg)
  have "fdiv (float64_of_int i) (float64_of_int n) = Fin (nearest (real_of_int i / real_of_int n))"
    using n0 round64_unit_interval [OF lo up1] by (simp add: fi fn)
  moreover have "\<lfloor>nearest (real_of_int i / real_of_int n)\<rfloor> = 0" using lt ge by linarith
  ultimately show ?thesis using ge by (simp add: int64_of_float64_def trunc_def)
qed


subsection \<open>The loop that fills the gaps\<close>

text \<open>
  The segment that is tracked when bin \<open>i\<close> is visited: segment 0 at the start, then the
  last bin before \<open>i\<close> that was not empty. An empty bin that inherits takes the count,
  the intensity sum and the range of the tracked segment and keeps its own \<open>at\<close>.
\<close>

fun last_nonempty :: "segment list \<Rightarrow> nat \<Rightarrow> segment" where
  "last_nonempty segs 0 = segs ! 0"
| "last_nonempty segs (Suc i) =
     (if seg_count (segs ! i) = 0 then last_nonempty segs i else segs ! i)"

definition inherit :: "segment \<Rightarrow> segment \<Rightarrow> segment" where
  "inherit s l =
     s\<lparr>seg_count := seg_count l, seg_intensity := seg_intensity l, seg_yRange := seg_yRange l\<rparr>"

definition filled :: "segment list \<Rightarrow> nat \<Rightarrow> segment" where
  "filled segs j =
     (if seg_count (segs ! j) = 0 then inherit (segs ! j) (last_nonempty segs j) else segs ! j)"

lemma last_nonempty_mem:
  "segs \<noteq> [] \<Longrightarrow> k \<le> length segs \<Longrightarrow> last_nonempty segs k \<in> set segs"
  by (induction k) simp_all

lemma gap_below_threshold:
  assumes "0 \<le> ts" "ts \<le> 1" "at_ok l"
  shows "wrap64 (ts - seg_at l) < backfillThreshold"
proof -
  have "- (2 ^ 63) \<le> ts - seg_at l" "ts - seg_at l < 2 ^ 63"
    using assms by (simp_all add: at_ok_def)
  then have "wrap64 (ts - seg_at l) = ts - seg_at l" by (rule wrap64_id)
  then show ?thesis using assms by (simp add: at_ok_def backfillThreshold_def)
qed

lemma backfill_step_filled:
  assumes k: "k < length segs" and n: "length segs = nat n" "n < 2 ^ 63"
    and ok: "at_ok l" and cur: "st ! k = segs ! k" and l: "l = last_nonempty segs k"
  shows "backfill_step n (st, l) k = (st[k := filled segs k], last_nonempty segs (Suc k))"
proof -
  let ?ts = "int64_of_float64 (fdiv (float64_of_int (int k)) (float64_of_int n))"
  have kn: "int k < n" using k n(1) by linarith
  have ts: "0 \<le> ?ts" "?ts \<le> 1" using segmentTS_range [of "int k" n] kn n(2) by simp_all
  have gap: "wrap64 (?ts - seg_at l) < backfillThreshold"
    using ts ok by (rule gap_below_threshold)
  show ?thesis
  proof (cases "seg_count (segs ! k) = 0")
    case True
    then show ?thesis
      using gap by (simp add: backfill_step_def Let_def cur filled_def inherit_def l)
  next
    case False
    have "st[k := segs ! k] = st" using cur by (metis list_update_id)
    then show ?thesis
      using False by (simp add: backfill_step_def Let_def cur filled_def)
  qed
qed

lemma backfill_fold:
  assumes "k \<le> length segs" "length segs = nat n" "n < 2 ^ 63" "\<forall>s\<in>set segs. at_ok s"
    and "segs \<noteq> []"
  shows "foldl (backfill_step n) (segs, segs ! 0) [0..<k] =
    (map (\<lambda>j. if j < k then filled segs j else segs ! j) [0..<length segs],
     last_nonempty segs k)"
  using assms(1)
proof (induction k)
  case 0
  then show ?case by (simp add: map_nth)
next
  case (Suc k)
  let ?st = "map (\<lambda>j. if j < k then filled segs j else segs ! j) [0..<length segs]"
  have k: "k < length segs" using Suc.prems by simp
  have ih: "foldl (backfill_step n) (segs, segs ! 0) [0..<k] = (?st, last_nonempty segs k)"
    using Suc by simp
  have ok: "at_ok (last_nonempty segs k)"
    using last_nonempty_mem [OF assms(5), of k] k assms(4) by simp
  have cur: "?st ! k = segs ! k" using k by simp
  have "backfill_step n (?st, last_nonempty segs k) k =
      (?st[k := filled segs k], last_nonempty segs (Suc k))"
    using k assms(2,3) ok cur by (intro backfill_step_filled) simp_all
  moreover have "?st[k := filled segs k] =
      map (\<lambda>j. if j < Suc k then filled segs j else segs ! j) [0..<length segs]"
  proof (rule nth_equalityI)
    show "length (?st[k := filled segs k]) =
        length (map (\<lambda>j. if j < Suc k then filled segs j else segs ! j) [0..<length segs])"
      by simp
  next
    fix j assume "j < length (?st[k := filled segs k])"
    then have j: "j < length segs" by simp
    show "?st[k := filled segs k] ! j =
        map (\<lambda>j. if j < Suc k then filled segs j else segs ! j) [0..<length segs] ! j"
    proof (cases "j = k")
      case True
      then show ?thesis using k by simp
    next
      case False
      then have "(j < Suc k) = (j < k)" by linarith
      then show ?thesis using False j by simp
    qed
  qed
  ultimately show ?case using ih by simp
qed

lemma backfill_nth:
  assumes "length segs = nat n" "n < 2 ^ 63" "\<forall>s\<in>set segs. at_ok s" "segs \<noteq> []"
  shows "backfill n segs = map (filled segs) [0..<length segs]"
proof -
  have "foldl (backfill_step n) (segs, segs ! 0) [0..<length segs] =
    (map (\<lambda>j. if j < length segs then filled segs j else segs ! j) [0..<length segs],
     last_nonempty segs (length segs))"
    using assms by (intro backfill_fold) simp_all
  then show ?thesis using assms(1) by (simp add: backfill_def cong: map_cong)
qed

text \<open>
  Claim C1. For validated actions (timestamps that are non-negative \<open>int64\<close>s) and a
  number of segments that is an \<open>int\<close>, take the segments as the binning loop leaves
  them. For every bin \<open>i\<close> the gap condition
  \<open>segmentTS - lastSegment.at < backfillThreshold\<close> holds for the tracked segment, and
  \<open>segmentTS\<close> is 0 for up to \<open>2^53\<close> segments; so after the loop every bin that was empty
  has the count, the intensity sum and the range of the tracked segment, and every
  other bin is as it was. The tracked segment is segment 0 at first and then the last
  non-empty bin visited.
\<close>

theorem backfill_fills_every_empty_bin:
  assumes "Actions funscript = Some acts"
    and "\<forall>a\<in>set acts. 0 \<le> At a \<and> At a < 2 ^ 63"
    and "n < 2 ^ 63"
    and "binned funscript n = Some segs"
  shows "length (backfill n segs) = nat n
    \<and> (\<forall>i<nat n.
          wrap64 (int64_of_float64 (fdiv (float64_of_int (int i)) (float64_of_int n))
                  - seg_at (last_nonempty segs i)) < backfillThreshold
        \<and> (n \<le> 2 ^ 53 \<longrightarrow>
             int64_of_float64 (fdiv (float64_of_int (int i)) (float64_of_int n)) = 0)
        \<and> backfill n segs ! i =
            (if seg_count (segs ! i) = 0
             then (segs ! i)\<lparr>seg_count := seg_count (last_nonempty segs i),
                             seg_intensity := seg_intensity (last_nonempty segs i),
                             seg_yRange := seg_yRange (last_nonempty segs i)\<rparr>
             else segs ! i))
    \<and> last_nonempty segs 0 = segs ! 0
    \<and> (\<forall>i<nat n. last_nonempty segs (Suc i) =
          (if seg_count (segs ! i) = 0 then last_nonempty segs i else segs ! i))"
proof -
  have inv: "length segs = nat n" "0 < n" "\<forall>s\<in>set segs. at_ok s"
    using binned_inv [OF assms(4,1,2)] by simp_all
  then have ne: "segs \<noteq> []" by auto
  have bf: "backfill n segs = map (filled segs) [0..<length segs]"
    using inv(1) assms(3) inv(3) ne by (rule backfill_nth)
  have each: "wrap64 (int64_of_float64 (fdiv (float64_of_int (int i)) (float64_of_int n))
                  - seg_at (last_nonempty segs i)) < backfillThreshold
        \<and> (n \<le> 2 ^ 53 \<longrightarrow>
             int64_of_float64 (fdiv (float64_of_int (int i)) (float64_of_int n)) = 0)
        \<and> backfill n segs ! i =
            (if seg_count (segs ! i) = 0
             then (segs ! i)\<lparr>seg_count := seg_count (last_nonempty segs i),
                             seg_intensity := seg_intensity (last_nonempty segs i),
                             seg_yRange := seg_yRange (last_nonempty segs i)\<rparr>
             else segs ! i)" if i: "i < nat n" for i
  proof -
    have il: "i < length segs" using i inv(1) by simp
    have kn: "int i < n" using i by linarith
    have ts: "0 \<le> int64_of_float64 (fdiv (float64_of_int (int i)) (float64_of_int n))"
      "int64_of_float64 (fdiv (float64_of_int (int i)) (float64_of_int n)) \<le> 1"
      using segmentTS_range [of "int i" n] kn assms(3) by simp_all
    have ok: "at_ok (last_nonempty segs i)"
      using last_nonempty_mem [OF ne, of i] il inv(3) by simp
    have z: "int64_of_float64 (fdiv (float64_of_int (int i)) (float64_of_int n)) = 0"
      if "n \<le> 2 ^ 53"
      using segmentTS_zero [of "int i" n] kn that by simp
    have "backfill n segs ! i = filled segs i" using il by (simp add: bf)
    then show ?thesis
      using gap_below_threshold [OF ts ok] z by (simp add: filled_def inherit_def)
  qed
  show ?thesis using inv(1) bf each by simp
qed


text \<open>Two actions a second apart, binned into four segments.\<close>

definition two_actions :: Script where
  "two_actions = doc_of [decoded 0 0, decoded 1000 100]"

lemma two_actions_binned:
  "binned two_actions 4 =
     Some [\<lparr>seg_count = 1, seg_intensity = 0, seg_yRange = (Fin 0, NaN), seg_at = 0\<rparr>,
           segment_zero, segment_zero,
           \<lparr>seg_count = 1, seg_intensity = 0, seg_yRange = (Fin 100, Fin 0), seg_at = 1000\<rparr>]"
proof -
  have w: "wrap64 1001 = 1001" "wrap64 100 = 100"
    by (simp_all add: wrap64_def)
  have c: "float64_of_int 0 = Fin 0" "float64_of_int 1 = Fin 1" "float64_of_int 4 = Fin 4"
    "float64_of_int 100 = Fin 100" "float64_of_int 1000 = Fin 1000"
    "float64_of_int 1001 = Fin 1001"
    by (simp_all add: float64_of_int_exact)
  have s0: "int64_of_float64 (Fin 0) = 0"
    by (simp add: int64_of_float64_def trunc_def)
  have s1: "int64_of_float64 (fmul (round64 (1000 / 1001)) (Fin 4)) = 3"
    by (simp add: float_eval)
  have a: "fdiv (Fin 0) (Fin 0) = NaN" "fdiv (Fin 0) (Fin 1) = Fin 0"
    "fdiv (Fin 100) (Fin 1) = Fin 100"
    by (simp_all add: round64_numeral)
  have b0: "bin_step 4 1000
        (Some ([], [segment_zero, segment_zero, segment_zero, segment_zero])) (decoded 0 0) =
      Some ([0], [\<lparr>seg_count = 1, seg_intensity = 0, seg_yRange = (Fin 0, NaN), seg_at = 0\<rparr>,
           segment_zero, segment_zero, segment_zero])"
    by (simp add: bin_step_def Let_def decoded_def windowSize_def w c s0 a numeral_eq_Suc
        segment_zero_def round64_numeral)
  have b1: "bin_step 4 1000 (Some ([0],
        [\<lparr>seg_count = 1, seg_intensity = 0, seg_yRange = (Fin 0, NaN), seg_at = 0\<rparr>,
           segment_zero, segment_zero, segment_zero])) (decoded 1000 100) =
      Some ([0, 100],
        [\<lparr>seg_count = 1, seg_intensity = 0, seg_yRange = (Fin 0, NaN), seg_at = 0\<rparr>,
           segment_zero, segment_zero,
           \<lparr>seg_count = 1, seg_intensity = 0, seg_yRange = (Fin 100, Fin 0), seg_at = 1000\<rparr>])"
    by (simp add: bin_step_def Let_def decoded_def windowSize_def w c s1 a numeral_eq_Suc
        segment_zero_def round64_numeral)
  have r: "replicate 4 segment_zero =
      [segment_zero, segment_zero, segment_zero, segment_zero]"
    by (simp add: numeral_eq_Suc)
  have l: "At (decoded 1000 100) = 1000" by (simp add: decoded_def)
  show ?thesis
    unfolding binned_def two_actions_def doc_of_def Let_def
    by (simp add: r l b0 b1)
qed

theorem backfill_fills_every_empty_bin_witness:
  "\<exists>segs. binned two_actions 4 = Some segs
     \<and> segs ! 1 = segment_zero \<and> segs ! 2 = segment_zero
     \<and> backfill 4 segs ! 1 =
         \<lparr>seg_count = 1, seg_intensity = 0, seg_yRange = (Fin 0, NaN), seg_at = 0\<rparr>
     \<and> backfill 4 segs ! 2 =
         \<lparr>seg_count = 1, seg_intensity = 0, seg_yRange = (Fin 0, NaN), seg_at = 0\<rparr>
     \<and> backfill 4 segs ! 3 =
         \<lparr>seg_count = 1, seg_intensity = 0, seg_yRange = (Fin 100, Fin 0), seg_at = 1000\<rparr>"
proof -
  let ?segs = "[\<lparr>seg_count = 1, seg_intensity = 0, seg_yRange = (Fin 0, NaN), seg_at = 0\<rparr>,
           segment_zero, segment_zero,
           \<lparr>seg_count = 1, seg_intensity = 0, seg_yRange = (Fin 100, Fin 0), seg_at = 1000\<rparr>]"
  have h1: "Actions two_actions = Some [decoded 0 0, decoded 1000 100]"
    by (simp add: two_actions_def doc_of_def)
  have h2: "\<forall>a\<in>set [decoded 0 0, decoded 1000 100]. 0 \<le> At a \<and> At a < 2 ^ 63"
    by (simp add: decoded_def)
  have h3: "(4::int) < 2 ^ 63" by simp
  note t = backfill_fills_every_empty_bin [OF h1 h2 h3 two_actions_binned]
  have "backfill 4 ?segs ! 1 =
         \<lparr>seg_count = 1, seg_intensity = 0, seg_yRange = (Fin 0, NaN), seg_at = 0\<rparr>"
    using t [THEN conjunct2, THEN conjunct1, rule_format, of 1]
    by (simp add: segment_zero_def)
  moreover have "backfill 4 ?segs ! 2 =
         \<lparr>seg_count = 1, seg_intensity = 0, seg_yRange = (Fin 0, NaN), seg_at = 0\<rparr>"
    using t [THEN conjunct2, THEN conjunct1, rule_format, of 2]
    by (simp add: segment_zero_def numeral_2_eq_2)
  moreover have "backfill 4 ?segs ! 3 =
         \<lparr>seg_count = 1, seg_intensity = 0, seg_yRange = (Fin 100, Fin 0), seg_at = 1000\<rparr>"
    using t [THEN conjunct2, THEN conjunct1, rule_format, of 3]
    by (simp add: segment_zero_def)
  ultimately show ?thesis using two_actions_binned by simp
qed

subsection \<open>The positions of the stops\<close>

lemma quantum_below_1:
  assumes "0 < x" "x < 1"
  shows "quantum x \<le> pow2 (- 53)"
proof -
  have "pow2 (expo x) \<le> \<bar>x\<bar>" using expo_bounds(1) [of x] assms by simp
  then have "pow2 (expo x) < pow2 0" using assms by (simp add: pow2_def)
  then have "expo x < 0" by (simp only: pow2_less_iff)
  then have "max (expo x) (- 1022) - 52 \<le> - 53" by simp
  then show ?thesis unfolding quantum_def by (simp only: pow2_le_iff)
qed

lemma nearest_error_unit:
  assumes "0 \<le> x" "x \<le> 1"
  shows "\<bar>nearest x - x\<bar> \<le> pow2 (- 53) / 2"
proof -
  consider "x = 0" | "x = 1" | "0 < x" "x < 1" using assms by linarith
  then show ?thesis
  proof cases
    case 1
    then show ?thesis by simp
  next
    case 2
    then show ?thesis by simp
  next
    case 3
    have "\<bar>nearest x - x\<bar> \<le> quantum x / 2" by (rule nearest_error)
    moreover have "quantum x \<le> pow2 (- 53)" using 3 by (rule quantum_below_1)
    ultimately show ?thesis by linarith
  qed
qed

lemma stop_positions_strict:
  assumes "0 \<le> i" "i < j" "j \<le> m" "m < 2 ^ 53"
  shows "flt (fdiv (float64_of_int i) (float64_of_int m))
             (fdiv (float64_of_int j) (float64_of_int m))"
proof -
  have fi: "float64_of_int i = Fin (of_int i)" using assms by (intro float64_of_int_exact) simp
  have fj: "float64_of_int j = Fin (of_int j)" using assms by (intro float64_of_int_exact) simp
  have fm: "float64_of_int m = Fin (of_int m)" using assms by (intro float64_of_int_exact) simp
  have m0: "0 < real_of_int m" using assms by simp
  have m53: "real_of_int m < 2 ^ 53"
  proof -
    have "real_of_int m < real_of_int (2 ^ 53)" using assms(4) by (simp only: of_int_less_iff)
    then show ?thesis by simp
  qed
  let ?x = "real_of_int i / real_of_int m" and ?y = "real_of_int j / real_of_int m"
  have x: "0 \<le> ?x" "?x \<le> 1" using assms m0 by simp_all
  have y: "0 \<le> ?y" "?y \<le> 1" using assms m0 by simp_all
  have "real_of_int i + 1 \<le> real_of_int j" using assms(2) by linarith
  then have "(real_of_int i + 1) / real_of_int m \<le> ?y"
    using m0 by (intro divide_right_mono) simp_all
  then have "?x + 1 / real_of_int m \<le> ?y" by (simp add: add_divide_distrib)
  moreover have "pow2 (- 53) < 1 / real_of_int m"
  proof -
    have "pow2 (- 53) = 1 / 2 ^ 53" using pow2_neg_nat [of 53] by simp
    also have "\<dots> < 1 / real_of_int m" using m0 m53 by (simp add: field_simps)
    finally show ?thesis .
  qed
  ultimately have gap: "pow2 (- 53) < ?y - ?x" by linarith
  have "nearest ?x < nearest ?y"
    using nearest_error_unit [OF x] nearest_error_unit [OF y] gap by linarith
  then show ?thesis
    using m0 round64_unit_interval [OF x] round64_unit_interval [OF y]
    by (simp add: fi fj fm)
qed

lemma stop_position_first:
  assumes "0 < m" "m < 2 ^ 53"
  shows "fdiv (float64_of_int 0) (float64_of_int m) = Fin 0"
proof -
  have "float64_of_int m = Fin (of_int m)" using assms by (intro float64_of_int_exact) simp
  then show ?thesis using assms(1) by simp
qed

lemma stop_position_last:
  assumes "0 < m" "m < 2 ^ 53"
  shows "fdiv (float64_of_int m) (float64_of_int m) = Fin 1"
proof -
  have "float64_of_int m = Fin (of_int m)" using assms by (intro float64_of_int_exact) simp
  then show ?thesis using assms(1) by simp
qed

subsection \<open>No panic on validated actions\<close>

lemma segment_index_range:
  assumes "0 \<le> t" "t \<le> maxts" "maxts < 2 ^ 63 - 1" "0 < n" "n \<le> 2 ^ 53"
  shows "0 \<le> int64_of_float64
            (fmul (fdiv (float64_of_int t) (float64_of_int (wrap64 (maxts + 1))))
               (float64_of_int n))"
    and "int64_of_float64
            (fmul (fdiv (float64_of_int t) (float64_of_int (wrap64 (maxts + 1))))
               (float64_of_int n)) \<le> n"
proof -
  have w: "wrap64 (maxts + 1) = maxts + 1" using assms by (intro wrap64_id) simp_all
  obtain q where q: "fdiv (float64_of_int t) (float64_of_int (maxts + 1)) = Fin q"
    "0 \<le> q" "q \<le> 1"
    using fdiv_ints_unit [of t "maxts + 1"] assms by auto
  have fn: "float64_of_int n = Fin (of_int n)" using assms by (intro float64_of_int_exact) simp
  have n0: "0 < real_of_int n" using assms by simp
  have "q * real_of_int n \<le> 1 * real_of_int n" using q(3) n0 by (intro mult_right_mono) simp_all
  then have "nearest (q * real_of_int n) \<le> nearest (real_of_int n)"
    by (intro nearest_mono) simp
  moreover have "nearest (real_of_int n) = real_of_int n"
    using assms by (intro nearest_of_int) simp
  ultimately have up: "nearest (q * real_of_int n) \<le> real_of_int n" by simp
  have lo: "0 \<le> nearest (q * real_of_int n)" using q(2) n0 by (intro nearest_nonneg) simp
  have "real_of_int n \<le> 2 ^ 53" using assms(5) by (rule of_int_le_pow)
  moreover have "(2::real) ^ 53 < pow2 1024" by (rule pow2_1024_gt)
  ultimately have "\<bar>nearest (q * real_of_int n)\<bar> < pow2 1024" using up lo by linarith
  then have r: "fmul (Fin q) (float64_of_int n) = Fin (nearest (q * real_of_int n))"
    by (simp add: fn round64_def)
  have f0: "0 \<le> \<lfloor>nearest (q * real_of_int n)\<rfloor>" using lo by simp
  have f1: "\<lfloor>nearest (q * real_of_int n)\<rfloor> \<le> n" using up by (simp add: floor_le_iff)
  have "n < 2 ^ 63" using assms(5) by simp
  then have f2: "\<lfloor>nearest (q * real_of_int n)\<rfloor> < 2 ^ 63" using f1 by linarith
  have "trunc (nearest (q * real_of_int n)) = \<lfloor>nearest (q * real_of_int n)\<rfloor>"
    using lo by (simp add: trunc_def)
  then have "int64_of_float64 (Fin (nearest (q * real_of_int n))) = \<lfloor>nearest (q * real_of_int n)\<rfloor>"
    using f0 f2 by (simp add: int64_of_float64_def)
  then show "0 \<le> int64_of_float64
            (fmul (fdiv (float64_of_int t) (float64_of_int (wrap64 (maxts + 1))))
               (float64_of_int n))"
    and "int64_of_float64
            (fmul (fdiv (float64_of_int t) (float64_of_int (wrap64 (maxts + 1))))
               (float64_of_int n)) \<le> n"
    using f0 f1 by (simp_all add: w q(1) r)
qed

lemma bin_step_Some:
  assumes "0 \<le> At a" "At a \<le> maxts" "maxts < 2 ^ 63 - 1" "0 < n" "n \<le> 2 ^ 53"
    and "length segs = nat n"
  shows "\<exists>pl' segs'. bin_step n maxts (Some (pl, segs)) a = Some (pl', segs')
    \<and> length segs' = nat n"
proof -
  let ?raw = "int64_of_float64
            (fmul (fdiv (float64_of_int (At a)) (float64_of_int (wrap64 (maxts + 1))))
               (float64_of_int n))"
  let ?s = "if ?raw \<ge> n then n - 1 else ?raw"
  have s0: "0 \<le> ?raw" "?raw \<le> n" by (rule segment_index_range [OF assms(1-5)])+
  have "0 \<le> ?s \<and> ?s < n"
  proof (cases "?raw \<ge> n")
    case True
    then show ?thesis using assms(4) by simp
  next
    case False
    then show ?thesis using s0 by simp
  qed
  then have "\<not> (?s < 0 \<or> int (length segs) \<le> ?s)" using assms(4,6) by linarith
  then show ?thesis using assms(6) by (simp add: bin_step_def Let_def)
qed

lemma bin_fold_Some:
  assumes "\<forall>a\<in>set acts. 0 \<le> At a \<and> At a \<le> maxts" "maxts < 2 ^ 63 - 1" "0 < n"
    "n \<le> 2 ^ 53" "length segs = nat n"
  shows "\<exists>pl' segs'. foldl (bin_step n maxts) (Some (pl, segs)) acts = Some (pl', segs')
    \<and> length segs' = nat n"
  using assms(1,5)
proof (induction acts arbitrary: pl segs)
  case Nil
  then show ?case by simp
next
  case (Cons a acts)
  obtain pl1 segs1 where s: "bin_step n maxts (Some (pl, segs)) a = Some (pl1, segs1)"
    "length segs1 = nat n"
    using bin_step_Some [of a maxts n segs pl] Cons.prems assms(2-4) by auto
  show ?case using Cons.IH [of segs1 pl1] Cons.prems(1) s by simp
qed

lemma binned_Some:
  assumes "Actions funscript = Some acts" "acts \<noteq> []" "sorted (map At acts)"
    and "\<forall>a\<in>set acts. 0 \<le> At a \<and> At a < 2 ^ 63 - 1" "0 < n" "n \<le> 2 ^ 53"
  shows "binned funscript n \<noteq> None"
proof -
  let ?maxts = "At (last acts)"
  have lm: "last acts \<in> set acts" using assms(2) by simp
  have le: "At a \<le> ?maxts" if mem: "a \<in> set acts" for a
  proof -
    obtain i where i: "i < length acts" "acts ! i = a"
      using mem by (auto simp: in_set_conv_nth)
    have "map At acts ! i \<le> map At acts ! (length acts - 1)"
      using assms(3) i(1) by (intro sorted_nth_mono) simp_all
    then show ?thesis using i assms(2) by (simp add: last_conv_nth)
  qed
  have "\<forall>a\<in>set acts. 0 \<le> At a \<and> At a \<le> ?maxts" using assms(4) le by simp
  moreover have "?maxts < 2 ^ 63 - 1" using assms(4) lm by blast
  ultimately obtain pl segs where
    "foldl (bin_step n ?maxts) (Some ([], replicate (nat n) segment_zero)) acts = Some (pl, segs)"
    "length segs = nat n"
    using bin_fold_Some [of acts ?maxts n "replicate (nat n) segment_zero" "[]"] assms(5,6)
    by auto
  then show ?thesis using assms(1,2,5) by (auto simp: binned_def Let_def)
qed


text \<open>
  Claim C7. For a script with actions and between 2 and \<open>2^53\<close> segments, every table
  that \<open>getGradientTable\<close> returns has exactly \<open>numSegments\<close> stops. Stop \<open>i\<close> is at
  position \<open>i / (numSegments - 1)\<close>, computed in \<open>float64\<close>; the positions increase strictly
  from 0 at the first stop to 1 at the last. Stop \<open>i\<close> has the range of segment \<open>i\<close> as
  the fill loop leaves it, and the colour \<open>getSegmentColor (intensity / count)\<close> of that
  segment when its count is positive, \<open>getSegmentColor 0.0\<close> otherwise. A table is
  returned whenever the actions are sorted by timestamps that are non-negative and below
  the largest \<open>int64\<close>.
\<close>

theorem getGradientTable_stops:
  assumes "Actions funscript = Some acts" and "acts \<noteq> []" and "2 \<le> n" and "n \<le> 2 ^ 53"
  shows "(\<forall>gt. getGradientTable L funscript n = Some gt \<longrightarrow>
            (\<exists>segs. binned funscript n = Some segs
               \<and> length gt = nat n
               \<and> (\<forall>i<nat n.
                     StopPos (gt ! i) = fdiv (float64_of_int (int i)) (float64_of_int (n - 1))
                   \<and> YRange (gt ! i) = seg_yRange (backfill n segs ! i)
                   \<and> Col (gt ! i) =
                       (if 0 < seg_count (backfill n segs ! i)
                        then getSegmentColor L
                               (fdiv (float64_of_int (seg_intensity (backfill n segs ! i)))
                                     (float64_of_int (seg_count (backfill n segs ! i))))
                        else getSegmentColor L (Fin 0)))
               \<and> StopPos (gt ! 0) = Fin 0
               \<and> StopPos (gt ! (nat n - 1)) = Fin 1
               \<and> (\<forall>i j. i < j \<and> j < nat n \<longrightarrow> flt (StopPos (gt ! i)) (StopPos (gt ! j)))))
    \<and> (sorted (map At acts) \<and> (\<forall>a\<in>set acts. 0 \<le> At a \<and> At a < 2 ^ 63 - 1)
         \<longrightarrow> (\<exists>gt. getGradientTable L funscript n = Some gt))"
proof (intro conjI allI impI)
  fix gt assume g: "getGradientTable L funscript n = Some gt"
  then obtain segs where segs: "binned funscript n = Some segs"
    and gt: "gt = map (stop_of L n (backfill n segs)) [0..<nat n]"
    by (auto simp: getGradientTable_def split: option.splits)
  have m: "0 < n - 1" "n - 1 < 2 ^ 53" using assms(3,4) by simp_all
  have nth: "gt ! i = stop_of L n (backfill n segs) i" if "i < nat n" for i
    using that by (simp add: gt)
  have pos: "StopPos (gt ! i) = fdiv (float64_of_int (int i)) (float64_of_int (n - 1))"
    if "i < nat n" for i
    using nth [OF that] by (simp add: stop_of_def)
  have "length gt = nat n" by (simp add: gt)
  moreover have "\<forall>i<nat n.
        StopPos (gt ! i) = fdiv (float64_of_int (int i)) (float64_of_int (n - 1))
      \<and> YRange (gt ! i) = seg_yRange (backfill n segs ! i)
      \<and> Col (gt ! i) =
          (if 0 < seg_count (backfill n segs ! i)
           then getSegmentColor L
                  (fdiv (float64_of_int (seg_intensity (backfill n segs ! i)))
                        (float64_of_int (seg_count (backfill n segs ! i))))
           else getSegmentColor L (Fin 0))"
    using nth by (simp add: stop_of_def)
  moreover have "StopPos (gt ! 0) = Fin 0"
    using pos [of 0] assms(3) stop_position_first [OF m] by simp
  moreover have "StopPos (gt ! (nat n - 1)) = Fin 1"
  proof -
    have "int (nat n - 1) = n - 1" using assms(3) by simp
    then show ?thesis using pos [of "nat n - 1"] assms(3) stop_position_last [OF m] by simp
  qed
  moreover have "\<forall>i j. i < j \<and> j < nat n \<longrightarrow> flt (StopPos (gt ! i)) (StopPos (gt ! j))"
  proof (intro allI impI)
    fix i j assume ij: "i < j \<and> j < nat n"
    then have "int i < int j" "int j \<le> n - 1" by linarith+
    then have "flt (fdiv (float64_of_int (int i)) (float64_of_int (n - 1)))
                   (fdiv (float64_of_int (int j)) (float64_of_int (n - 1)))"
      using m(2) by (intro stop_positions_strict) simp_all
    then show "flt (StopPos (gt ! i)) (StopPos (gt ! j))"
      using pos [of i] pos [of j] ij by simp
  qed
  ultimately show "\<exists>segs. binned funscript n = Some segs
               \<and> length gt = nat n
               \<and> (\<forall>i<nat n.
                     StopPos (gt ! i) = fdiv (float64_of_int (int i)) (float64_of_int (n - 1))
                   \<and> YRange (gt ! i) = seg_yRange (backfill n segs ! i)
                   \<and> Col (gt ! i) =
                       (if 0 < seg_count (backfill n segs ! i)
                        then getSegmentColor L
                               (fdiv (float64_of_int (seg_intensity (backfill n segs ! i)))
                                     (float64_of_int (seg_count (backfill n segs ! i))))
                        else getSegmentColor L (Fin 0)))
               \<and> StopPos (gt ! 0) = Fin 0
               \<and> StopPos (gt ! (nat n - 1)) = Fin 1
               \<and> (\<forall>i j. i < j \<and> j < nat n \<longrightarrow> flt (StopPos (gt ! i)) (StopPos (gt ! j)))"
    using segs by blast
next
  assume v: "sorted (map At acts) \<and> (\<forall>a\<in>set acts. 0 \<le> At a \<and> At a < 2 ^ 63 - 1)"
  have "binned funscript n \<noteq> None"
    using assms v by (intro binned_Some [of funscript acts]) simp_all
  then show "\<exists>gt. getGradientTable L funscript n = Some gt"
    by (auto simp: getGradientTable_def)
qed

theorem getGradientTable_stops_witness:
  "\<exists>gt. getGradientTable sample_colorful two_actions 4 = Some gt
     \<and> length gt = 4
     \<and> StopPos (gt ! 0) = Fin 0 \<and> StopPos (gt ! 3) = Fin 1
     \<and> flt (StopPos (gt ! 1)) (StopPos (gt ! 2))
     \<and> YRange (gt ! 3) = (Fin 100, Fin 0)
     \<and> Col (gt ! 3) = ''#30404d''"
proof -
  let ?segs = "[\<lparr>seg_count = 1, seg_intensity = 0, seg_yRange = (Fin 0, NaN), seg_at = 0\<rparr>,
           segment_zero, segment_zero,
           \<lparr>seg_count = 1, seg_intensity = 0, seg_yRange = (Fin 100, Fin 0), seg_at = 1000\<rparr>]"
  have h1: "Actions two_actions = Some [decoded 0 0, decoded 1000 100]"
    by (simp add: two_actions_def doc_of_def)
  have h2: "[decoded 0 0, decoded 1000 100] \<noteq> []" by simp
  have h3: "(2::int) \<le> 4" "(4::int) \<le> 2 ^ 53" by simp_all
  have h4: "sorted (map At [decoded 0 0, decoded 1000 100])
      \<and> (\<forall>a\<in>set [decoded 0 0, decoded 1000 100]. 0 \<le> At a \<and> At a < 2 ^ 63 - 1)"
    by (simp add: decoded_def)
  note t = getGradientTable_stops [OF h1 h2 h3, of sample_colorful]
  obtain gt where gt: "getGradientTable sample_colorful two_actions 4 = Some gt"
    using t h4 by blast
  obtain segs where segs: "binned two_actions 4 = Some segs" "length gt = nat 4"
    and each: "\<forall>i<nat 4.
        StopPos (gt ! i) = fdiv (float64_of_int (int i)) (float64_of_int (4 - 1))
      \<and> YRange (gt ! i) = seg_yRange (backfill 4 segs ! i)
      \<and> Col (gt ! i) =
          (if 0 < seg_count (backfill 4 segs ! i)
           then getSegmentColor sample_colorful
                  (fdiv (float64_of_int (seg_intensity (backfill 4 segs ! i)))
                        (float64_of_int (seg_count (backfill 4 segs ! i))))
           else getSegmentColor sample_colorful (Fin 0))"
    and ends: "StopPos (gt ! 0) = Fin 0" "StopPos (gt ! (nat 4 - 1)) = Fin 1"
    and inc: "\<forall>i j. i < j \<and> j < nat 4 \<longrightarrow> flt (StopPos (gt ! i)) (StopPos (gt ! j))"
    using t gt by blast
  have s: "segs = ?segs" using segs(1) two_actions_binned by simp
  have b3: "backfill 4 ?segs ! 3 = ?segs ! 3"
    by (simp add: backfill_def backfill_step_def Let_def numeral_eq_Suc segment_zero_def)
  have f1: "float64_of_int 1 = Fin 1" by (simp add: float64_of_int_exact)
  have c: "getSegmentColor sample_colorful (Fin 0) = ''#30404d''"
    by (simp add: getSegmentColor_def Let_def thousandth sample_colorful_def)
  have "YRange (gt ! 3) = (Fin 100, Fin 0) \<and> Col (gt ! 3) = ''#30404d''"
    using each [rule_format, of 3] by (simp add: s b3 c f1)
  moreover have "flt (StopPos (gt ! 1)) (StopPos (gt ! 2))"
    using inc [rule_format, of 1 2] by simp
  moreover have "StopPos (gt ! 3) = Fin 1" using ends(2) by simp
  ultimately show ?thesis using gt segs(2) ends(1) by simp
qed

section \<open>\<open>GetInterpolatedColorFor\<close> and \<open>GetYRange\<close>\<close>

text \<open>
  The loop over the pairs \<open>gt[i]\<close>, \<open>gt[i+1]\<close> is a recursion over the rest of the table
  from \<open>i\<close> on: the pair tested is the first two stops of the rest, and the stop
  returned when no pair encloses \<open>t\<close> is the last of the rest, which is the last of the
  table. On an empty table \<open>gt[len(gt)-1]\<close> panics.
\<close>

fun GetInterpolatedColorFor ::
  "('c, 'z) colorful_scheme \<Rightarrow> 'c stop list \<Rightarrow> float64 \<Rightarrow> 'c option" where
  "GetInterpolatedColorFor L [] t = None"
| "GetInterpolatedColorFor L [c] t = Some (Col c)"
| "GetInterpolatedColorFor L (c1 # c2 # rest) t =
     (if fle (StopPos c1) t \<and> fle t (StopPos c2)
      then Some (Clamped L (BlendHcl L (Col c1) (Col c2)
                  (fdiv (fsub t (StopPos c1)) (fsub (StopPos c2) (StopPos c1)))))
      else GetInterpolatedColorFor L (c2 # rest) t)"

fun GetYRange :: "'c stop list \<Rightarrow> float64 \<Rightarrow> (float64 \<times> float64) option" where
  "GetYRange [] t = None"
| "GetYRange [c] t = Some (YRange c)"
| "GetYRange (c1 # c2 # rest) t =
     (if fle (StopPos c1) t \<and> fle t (StopPos c2) then Some (YRange c1)
      else GetYRange (c2 # rest) t)"

subsection \<open>Queries at and past the stops\<close>

text \<open>A table whose positions increase strictly, and one whose positions are
  \<open>float64\<close> values between 0 and 1.\<close>

definition increasing :: "'c stop list \<Rightarrow> bool" where
  "increasing gt \<longleftrightarrow> sorted_wrt (\<lambda>a b. flt (StopPos a) (StopPos b)) gt"

definition unit_positions :: "'c stop list \<Rightarrow> bool" where
  "unit_positions gt \<longleftrightarrow>
     list_all (\<lambda>s. case StopPos s of Fin r \<Rightarrow> nearest r = r \<and> 0 \<le> r \<and> r \<le> 1 | _ \<Rightarrow> False) gt"

lemma flt_trans: "flt x y \<Longrightarrow> flt y z \<Longrightarrow> flt x z"
  by (cases x; cases y; cases z) simp_all

lemma flt_not_fle: "flt x y \<Longrightarrow> \<not> fle y x"
  by (cases x; cases y) simp_all

lemma flt_imp_fle: "flt x y \<Longrightarrow> fle x y"
  by (cases x; cases y) simp_all

lemma fle_refl_Fin [simp]: "fle (Fin r) (Fin r)"
  by simp

lemma increasing_Cons: "increasing (c # gt) \<Longrightarrow> increasing gt"
  by (simp add: increasing_def)

lemma increasing_head_last:
  "increasing (c # gt) \<Longrightarrow> gt \<noteq> [] \<Longrightarrow> flt (StopPos c) (StopPos (last gt))"
  by (simp add: increasing_def)

lemma increasing_head_nth:
  "increasing (c # gt) \<Longrightarrow> k < length gt \<Longrightarrow> flt (StopPos c) (StopPos (gt ! k))"
  by (simp add: increasing_def)

lemma past_last_Col:
  assumes "increasing gt" "gt \<noteq> []" "flt (StopPos (last gt)) t"
  shows "GetInterpolatedColorFor L gt t = Some (Col (last gt))"
  using assms
proof (induction L gt t rule: GetInterpolatedColorFor.induct)
  case (3 L c1 c2 rest t)
  have "fle (StopPos c2) (StopPos (last (c2 # rest)))"
  proof (cases rest)
    case Nil
    then show ?thesis using 3(4) by (cases "StopPos c2") simp_all
  next
    case (Cons a as)
    then show ?thesis
      using increasing_head_last [OF increasing_Cons [OF 3(2)]] by (simp add: flt_imp_fle)
  qed
  then have "\<not> fle t (StopPos c2)"
    using 3(4) by (cases "StopPos c2"; cases "StopPos (last (c2 # rest))"; cases t) simp_all
  then show ?case using 3 increasing_Cons [OF 3(2)] by simp
qed simp_all

lemma past_last_YRange:
  assumes "increasing gt" "gt \<noteq> []" "flt (StopPos (last gt)) t"
  shows "GetYRange gt t = Some (YRange (last gt))"
  using assms
proof (induction gt t rule: GetYRange.induct)
  case (3 c1 c2 rest t)
  have "fle (StopPos c2) (StopPos (last (c2 # rest)))"
  proof (cases rest)
    case Nil
    then show ?thesis using 3(4) by (cases "StopPos c2") simp_all
  next
    case (Cons a as)
    then show ?thesis
      using increasing_head_last [OF increasing_Cons [OF 3(2)]] by (simp add: flt_imp_fle)
  qed
  then have "\<not> fle t (StopPos c2)"
    using 3(4) by (cases "StopPos c2"; cases "StopPos (last (c2 # rest))"; cases t) simp_all
  then show ?case using 3 increasing_Cons [OF 3(2)] by simp
qed simp_all

text \<open>Values on the grid are multiples of the subnormal spacing.\<close>

lemma grid_multiple:
  assumes "nearest r = r"
  shows "\<exists>m::int. r = of_int m * pow2 (- 1074)"
proof -
  let ?e = "max (expo r) (- 1022)"
  have "0 \<le> ?e + 1022" by simp
  then obtain j :: int where j: "pow2 (?e + 1022) = of_int j"
    using pow2_int_cases by blast
  have "quantum r = pow2 (?e + 1022) * pow2 (- 1074)"
    unfolding quantum_def pow2_mult by (rule arg_cong [where f = pow2]) simp
  then have "nearest r = of_int (rne (r / quantum r) * j) * pow2 (- 1074)"
    by (simp add: nearest_def j)
  then show ?thesis using assms by metis
qed

lemma positive_difference:
  assumes "nearest a = a" "nearest b = b" "a < b" "0 \<le> a" "b \<le> 1"
  shows "\<exists>d. round64 (b - a) = Fin d \<and> 0 < d"
proof -
  obtain m where m: "a = of_int m * pow2 (- 1074)" using grid_multiple [OF assms(1)] by blast
  obtain k where k: "b = of_int k * pow2 (- 1074)" using grid_multiple [OF assms(2)] by blast
  have "b - a = of_int (k - m) * pow2 (- 1074)" by (simp add: m k algebra_simps)
  moreover have "0 < real_of_int (k - m) * pow2 (- 1074)" using assms(3) calculation by simp
  then have "0 < real_of_int (k - m)" by (rule zero_less_mult_pos2) (rule pow2_pos)
  then have "0 < k - m" by (simp only: of_int_0_less_iff)
  then have "1 \<le> k - m" by linarith
  then have "real_of_int 1 \<le> real_of_int (k - m)" by (simp only: of_int_le_iff)
  then have "1 \<le> real_of_int (k - m)" by simp
  ultimately have "1 * pow2 (- 1074) \<le> b - a"
    by (simp only: mult_right_mono pow2_nonneg)
  then have "nearest (of_int 1 * pow2 (- 1074)) \<le> nearest (b - a)"
    by (intro nearest_mono) simp
  moreover have "nearest (of_int 1 * pow2 (- 1074)) = of_int 1 * pow2 (- 1074)"
    by (rule nearest_grid [OF refl]) simp_all
  ultimately have "pow2 (- 1074) \<le> nearest (b - a)" by simp
  then have pos: "0 < nearest (b - a)"
    using pow2_pos [of "- 1074"] by linarith
  have "0 \<le> b - a" "b - a \<le> 1" using assms by simp_all
  then have "round64 (b - a) = Fin (nearest (b - a))" by (rule round64_unit_interval)
  then show ?thesis using pos by simp
qed

lemma fraction_at_upper:
  assumes "nearest a = a" "nearest b = b" "a < b" "0 \<le> a" "b \<le> 1"
  shows "fdiv (fsub (Fin b) (Fin a)) (fsub (Fin b) (Fin a)) = Fin 1"
proof -
  obtain d where "round64 (b - a) = Fin d" "0 < d"
    using positive_difference [OF assms] by blast
  then show ?thesis by simp
qed

lemma fraction_at_lower:
  assumes "nearest a = a" "nearest b = b" "a < b" "0 \<le> a" "b \<le> 1"
  shows "fdiv (fsub (Fin a) (Fin a)) (fsub (Fin b) (Fin a)) = Fin 0"
proof -
  obtain d where "round64 (b - a) = Fin d" "0 < d"
    using positive_difference [OF assms] by blast
  then show ?thesis by simp
qed


lemma unit_positionsD:
  assumes "unit_positions gt" "s \<in> set gt"
  obtains r where "StopPos s = Fin r" "nearest r = r" "0 \<le> r" "r \<le> 1"
proof -
  have "case StopPos s of Fin r \<Rightarrow> nearest r = r \<and> 0 \<le> r \<and> r \<le> 1 | _ \<Rightarrow> False"
    using assms by (simp add: unit_positions_def list_all_iff)
  then show ?thesis using that by (cases "StopPos s") simp_all
qed

lemma unit_positions_Cons: "unit_positions (c # gt) \<Longrightarrow> unit_positions gt"
  by (simp add: unit_positions_def)

lemma first_pair:
  assumes "increasing (c1 # c2 # rest)" "unit_positions (c1 # c2 # rest)"
  obtains a b where "StopPos c1 = Fin a" "StopPos c2 = Fin b" "a < b"
    "fdiv (fsub (Fin b) (Fin a)) (fsub (Fin b) (Fin a)) = Fin 1"
    "fdiv (fsub (Fin a) (Fin a)) (fsub (Fin b) (Fin a)) = Fin 0"
proof -
  obtain a where a: "StopPos c1 = Fin a" "nearest a = a" "0 \<le> a" "a \<le> 1"
    using unit_positionsD [OF assms(2), of c1] by auto
  obtain b where b: "StopPos c2 = Fin b" "nearest b = b" "0 \<le> b" "b \<le> 1"
    using unit_positionsD [OF assms(2), of c2] by auto
  have ab: "a < b" using assms(1) a(1) b(1) by (simp add: increasing_def)
  show ?thesis
    using that [OF a(1) b(1) ab] fraction_at_upper [OF a(2) b(2) ab a(3) b(4)]
      fraction_at_lower [OF a(2) b(2) ab a(3) b(4)] by blast
qed

lemma at_stop_Col:
  assumes "increasing gt" "unit_positions gt" "1 \<le> k" "k < length gt"
  shows "GetInterpolatedColorFor L gt (StopPos (gt ! k)) =
    Some (Clamped L (BlendHcl L (Col (gt ! (k - 1))) (Col (gt ! k)) (Fin 1)))"
  using assms
proof (induction gt arbitrary: k)
  case Nil
  then show ?case by simp
next
  case (Cons c1 gt)
  then obtain c2 rest where gt: "gt = c2 # rest" by (cases gt) auto
  obtain a b where ab: "StopPos c1 = Fin a" "StopPos c2 = Fin b" "a < b"
    "fdiv (fsub (Fin b) (Fin a)) (fsub (Fin b) (Fin a)) = Fin 1"
    using first_pair [of c1 c2 rest] Cons.prems(1,2) gt by blast
  show ?case
  proof (cases "k = 1")
    case True
    then show ?thesis using ab by (simp add: gt)
  next
    case False
    then have k2: "1 \<le> k - 1" "k - 1 < length gt" using Cons.prems(3,4) by simp_all
    have nth: "(c1 # gt) ! k = gt ! (k - 1)" "(c1 # gt) ! (k - 1) = gt ! (k - 1 - 1)"
      using k2 by (simp_all add: nth_Cons')
    have "gt ! (k - 1) = rest ! (k - 1 - 1)" using k2 by (simp add: gt nth_Cons')
    moreover have "k - 1 - 1 < length rest" using k2 by (simp add: gt)
    ultimately have "flt (StopPos c2) (StopPos (gt ! (k - 1)))"
      using increasing_head_nth [of c2 rest "k - 1 - 1"] increasing_Cons [OF Cons.prems(1)]
      by (simp add: gt)
    then have "\<not> fle (StopPos (gt ! (k - 1))) (StopPos c2)" by (rule flt_not_fle)
    then have "GetInterpolatedColorFor L (c1 # gt) (StopPos (gt ! (k - 1))) =
        GetInterpolatedColorFor L gt (StopPos (gt ! (k - 1)))"
      by (simp add: gt)
    also have "\<dots> = Some (Clamped L (BlendHcl L (Col (gt ! (k - 1 - 1))) (Col (gt ! (k - 1))) (Fin 1)))"
      by (rule Cons.IH [OF increasing_Cons [OF Cons.prems(1)]
            unit_positions_Cons [OF Cons.prems(2)] k2])
    finally show ?thesis by (simp only: nth)
  qed
qed

lemma at_stop_YRange:
  assumes "increasing gt" "unit_positions gt" "1 \<le> k" "k < length gt"
  shows "GetYRange gt (StopPos (gt ! k)) = Some (YRange (gt ! (k - 1)))"
  using assms
proof (induction gt arbitrary: k)
  case Nil
  then show ?case by simp
next
  case (Cons c1 gt)
  then obtain c2 rest where gt: "gt = c2 # rest" by (cases gt) auto
  obtain a b where ab: "StopPos c1 = Fin a" "StopPos c2 = Fin b" "a < b"
    using first_pair [of c1 c2 rest] Cons.prems(1,2) gt by blast
  show ?case
  proof (cases "k = 1")
    case True
    then show ?thesis using ab by (simp add: gt)
  next
    case False
    then have k2: "1 \<le> k - 1" "k - 1 < length gt" using Cons.prems(3,4) by simp_all
    have nth: "(c1 # gt) ! k = gt ! (k - 1)" "(c1 # gt) ! (k - 1) = gt ! (k - 1 - 1)"
      using k2 by (simp_all add: nth_Cons')
    have "gt ! (k - 1) = rest ! (k - 1 - 1)" using k2 by (simp add: gt nth_Cons')
    moreover have "k - 1 - 1 < length rest" using k2 by (simp add: gt)
    ultimately have "flt (StopPos c2) (StopPos (gt ! (k - 1)))"
      using increasing_head_nth [of c2 rest "k - 1 - 1"] increasing_Cons [OF Cons.prems(1)]
      by (simp add: gt)
    then have "\<not> fle (StopPos (gt ! (k - 1))) (StopPos c2)" by (rule flt_not_fle)
    then have "GetYRange (c1 # gt) (StopPos (gt ! (k - 1))) = GetYRange gt (StopPos (gt ! (k - 1)))"
      by (simp add: gt)
    also have "\<dots> = Some (YRange (gt ! (k - 1 - 1)))"
      by (rule Cons.IH [OF increasing_Cons [OF Cons.prems(1)]
            unit_positions_Cons [OF Cons.prems(2)] k2])
    finally show ?thesis by (simp only: nth)
  qed
qed

lemma at_first_stop:
  assumes "increasing gt" "unit_positions gt" "2 \<le> length gt"
  shows "GetInterpolatedColorFor L gt (StopPos (gt ! 0)) =
      Some (Clamped L (BlendHcl L (Col (gt ! 0)) (Col (gt ! 1)) (Fin 0)))"
    and "GetYRange gt (StopPos (gt ! 0)) = Some (YRange (gt ! 0))"
proof -
  obtain c1 c2 rest where gt: "gt = c1 # c2 # rest"
    using assms(3) by (cases gt; cases "tl gt") auto
  obtain a b where ab: "StopPos c1 = Fin a" "StopPos c2 = Fin b" "a < b"
    "fdiv (fsub (Fin a) (Fin a)) (fsub (Fin b) (Fin a)) = Fin 0"
    using first_pair [of c1 c2 rest] assms(1,2) gt by blast
  show "GetInterpolatedColorFor L gt (StopPos (gt ! 0)) =
      Some (Clamped L (BlendHcl L (Col (gt ! 0)) (Col (gt ! 1)) (Fin 0)))"
    using ab by (simp add: gt)
  show "GetYRange gt (StopPos (gt ! 0)) = Some (YRange (gt ! 0))"
    using ab by (simp add: gt)
qed

text \<open>Two stops, at 0 and at 1, with different ranges.\<close>

definition two_stops :: "string stop list" where
  "two_stops = [\<lparr>Col = ''#1e90ff'', StopPos = Fin 0, YRange = (Fin 80, Fin 20)\<rparr>,
                \<lparr>Col = ''#228b22'', StopPos = Fin 1, YRange = (Fin 60, Fin 40)\<rparr>]"

text \<open>
  Claim C8 fails for the range at the last stop's own position: the positions 0 and 1
  increase strictly, the query 1 is the position of the last stop, and \<open>GetYRange\<close>
  returns the range of the stop before it, since the pair of the two stops encloses 1.
\<close>

theorem GetYRange_at_last_stop:
  "sorted_wrt (\<lambda>a b. flt (StopPos a) (StopPos b)) two_stops
   \<and> fle (StopPos (last two_stops)) (Fin 1)
   \<and> GetYRange two_stops (Fin 1) = Some (Fin 80, Fin 20)
   \<and> GetYRange two_stops (Fin 1) \<noteq> Some (YRange (last two_stops))"
proof -
  have "GetYRange two_stops (Fin 1) = Some (Fin 80, Fin 20)"
    unfolding two_stops_def by simp
  moreover have "YRange (last two_stops) = (Fin 60, Fin 40)"
    unfolding two_stops_def by simp
  moreover have "StopPos (last two_stops) = Fin 1"
    unfolding two_stops_def by simp
  moreover have "sorted_wrt (\<lambda>a b. flt (StopPos a) (StopPos b)) two_stops"
    unfolding two_stops_def by simp
  ultimately show ?thesis by simp
qed


text \<open>Three stops, at 0, 1/2 and 1.\<close>

definition three_stops :: "string stop list" where
  "three_stops = [\<lparr>Col = ''#1e90ff'', StopPos = Fin 0, YRange = (Fin 80, Fin 20)\<rparr>,
                  \<lparr>Col = ''#228b22'', StopPos = Fin (1 / 2), YRange = (Fin 70, Fin 30)\<rparr>,
                  \<lparr>Col = ''#ffd700'', StopPos = Fin 1, YRange = (Fin 60, Fin 40)\<rparr>]"

text \<open>
  Claim C8, amended. Take a table whose positions are \<open>float64\<close> values between 0 and 1
  and increase strictly, as in a table that \<open>getGradientTable\<close> builds. Queried at the
  position of stop \<open>k\<close>, \<open>GetInterpolatedColorFor\<close> returns the clamped HCL blend of the
  enclosing pair at the boundary: of stops 0 and 1 at fraction 0 for \<open>k = 0\<close>, of stops
  \<open>k - 1\<close> and \<open>k\<close> at fraction 1 for \<open>k > 0\<close> (the last stop too), and the colour of the
  only stop of a one-stop table. That is the colour of stop \<open>k\<close> when the blend returns
  its endpoints at fractions 0 and 1 and clamping leaves that colour as it is.
  \<open>GetYRange\<close> at the position of stop \<open>k\<close> returns the range of the lower stop of that
  pair, stop \<open>k - 1\<close> for \<open>k > 0\<close> (at the last stop's position too) and stop 0 for
  \<open>k = 0\<close>. A query strictly greater than the last position returns the colour and the
  range of the last stop themselves.
\<close>

theorem gradient_lookup_at_and_past_stops:
  assumes "increasing gt" and "unit_positions gt" and "k < length gt"
  shows "GetInterpolatedColorFor L gt (StopPos (gt ! k)) =
      Some (if length gt = 1 then Col (gt ! 0)
            else if k = 0 then Clamped L (BlendHcl L (Col (gt ! 0)) (Col (gt ! 1)) (Fin 0))
            else Clamped L (BlendHcl L (Col (gt ! (k - 1))) (Col (gt ! k)) (Fin 1)))
    \<and> ((\<forall>a b. BlendHcl L a b (Fin 0) = a \<and> BlendHcl L a b (Fin 1) = b)
          \<and> Clamped L (Col (gt ! k)) = Col (gt ! k)
        \<longrightarrow> GetInterpolatedColorFor L gt (StopPos (gt ! k)) = Some (Col (gt ! k)))
    \<and> GetYRange gt (StopPos (gt ! k)) = Some (YRange (gt ! (k - 1)))
    \<and> (\<forall>t. flt (StopPos (last gt)) t \<longrightarrow>
          GetInterpolatedColorFor L gt t = Some (Col (last gt))
          \<and> GetYRange gt t = Some (YRange (last gt)))"
proof -
  have ne: "gt \<noteq> []" using assms(3) by auto
  have col: "GetInterpolatedColorFor L gt (StopPos (gt ! k)) =
      Some (if length gt = 1 then Col (gt ! 0)
            else if k = 0 then Clamped L (BlendHcl L (Col (gt ! 0)) (Col (gt ! 1)) (Fin 0))
            else Clamped L (BlendHcl L (Col (gt ! (k - 1))) (Col (gt ! k)) (Fin 1)))"
    and yr: "GetYRange gt (StopPos (gt ! k)) = Some (YRange (gt ! (k - 1)))"
  proof -
    consider "length gt = 1" | "2 \<le> length gt" "k = 0" | "2 \<le> length gt" "1 \<le> k"
      using assms(3) by linarith
    then have "GetInterpolatedColorFor L gt (StopPos (gt ! k)) =
      Some (if length gt = 1 then Col (gt ! 0)
            else if k = 0 then Clamped L (BlendHcl L (Col (gt ! 0)) (Col (gt ! 1)) (Fin 0))
            else Clamped L (BlendHcl L (Col (gt ! (k - 1))) (Col (gt ! k)) (Fin 1)))
      \<and> GetYRange gt (StopPos (gt ! k)) = Some (YRange (gt ! (k - 1)))"
    proof cases
      case 1
      then obtain c where "gt = [c]" by (cases gt) auto
      then show ?thesis using assms(3) by simp
    next
      case 2
      then show ?thesis
        using at_first_stop(1) [OF assms(1,2) 2(1), of L] at_first_stop(2) [OF assms(1,2) 2(1)]
        by simp
    next
      case 3
      then show ?thesis
        using at_stop_Col [OF assms(1,2) 3(2) assms(3), of L]
          at_stop_YRange [OF assms(1,2) 3(2) assms(3)] by simp
    qed
    then show "GetInterpolatedColorFor L gt (StopPos (gt ! k)) =
      Some (if length gt = 1 then Col (gt ! 0)
            else if k = 0 then Clamped L (BlendHcl L (Col (gt ! 0)) (Col (gt ! 1)) (Fin 0))
            else Clamped L (BlendHcl L (Col (gt ! (k - 1))) (Col (gt ! k)) (Fin 1)))"
      and "GetYRange gt (StopPos (gt ! k)) = Some (YRange (gt ! (k - 1)))"
      by simp_all
  qed
  have law: "GetInterpolatedColorFor L gt (StopPos (gt ! k)) = Some (Col (gt ! k))"
    if "(\<forall>a b. BlendHcl L a b (Fin 0) = a \<and> BlendHcl L a b (Fin 1) = b)
          \<and> Clamped L (Col (gt ! k)) = Col (gt ! k)"
    using that assms(3) unfolding col by auto
  have past: "GetInterpolatedColorFor L gt t = Some (Col (last gt))
      \<and> GetYRange gt t = Some (YRange (last gt))" if "flt (StopPos (last gt)) t" for t
    using past_last_Col [OF assms(1) ne that] past_last_YRange [OF assms(1) ne that] by simp
  show ?thesis using col yr law past by blast
qed

theorem gradient_lookup_at_and_past_stops_witness:
  "GetInterpolatedColorFor sample_colorful three_stops (Fin (1 / 2)) = Some ''#228b22''
   \<and> GetYRange three_stops (Fin (1 / 2)) = Some (Fin 80, Fin 20)
   \<and> GetInterpolatedColorFor sample_colorful three_stops (Fin 2) = Some ''#ffd700''
   \<and> GetYRange three_stops (Fin 2) = Some (Fin 60, Fin 40)"
proof -
  have half: "nearest (1 / 2) = 1 / 2"
  proof -
    have "(1::real) / 2 = of_int 1 * pow2 (- 1)" by (simp add: pow2_def)
    then show ?thesis by (rule nearest_grid) simp_all
  qed
  have h1: "increasing three_stops" by (simp add: increasing_def three_stops_def)
  have h2: "unit_positions three_stops" by (simp add: unit_positions_def three_stops_def half)
  have h3: "1 < length three_stops" by (simp add: three_stops_def)
  have law: "(\<forall>a b. BlendHcl sample_colorful a b (Fin 0) = a
        \<and> BlendHcl sample_colorful a b (Fin 1) = b)
      \<and> Clamped sample_colorful (Col (three_stops ! 1)) = Col (three_stops ! 1)"
    by (simp add: sample_colorful_def sample_blend_def)
  note t = gradient_lookup_at_and_past_stops [OF h1 h2 h3, of sample_colorful]
  have "GetInterpolatedColorFor sample_colorful three_stops (StopPos (three_stops ! 1))
      = Some (Col (three_stops ! 1))"
    using t law by blast
  moreover have "GetYRange three_stops (StopPos (three_stops ! 1))
      = Some (YRange (three_stops ! (1 - 1)))"
    using t by blast
  moreover have "flt (StopPos (last three_stops)) (Fin 2)" by (simp add: three_stops_def)
  then have "GetInterpolatedColorFor sample_colorful three_stops (Fin 2)
        = Some (Col (last three_stops))
      \<and> GetYRange three_stops (Fin 2) = Some (YRange (last three_stops))"
    using t by blast
  ultimately show ?thesis by (simp add: three_stops_def)
qed

section \<open>\<open>RenderHeatmap\<close> and \<open>Generate\<close>\<close>

text \<open>
  The image is known by what is drawn on it: \<open>Fill x0 y0 x1 y1 c\<close> is
  \<open>draw.Draw(img, image.Rect(x0, y0, x1, y1), &image.Uniform{c}, image.Point{}, draw.Src)\<close>.
  \<open>os.Create\<close> and \<open>png.Encode\<close> are parameters that return their error, if any; a
  call of either is recorded in the trace, as is a warning sent to the logger.
  \<open>image.NewRGBA\<close> is taken not to panic.
\<close>

datatype 'c draw_op = Fill int int int int 'c

record 'c writer =
  Create :: "string \<Rightarrow> error option"
  Encode :: "string \<Rightarrow> 'c draw_op list \<Rightarrow> error option"

datatype 'c event = Warned log_entry | FileCreated string | ImageEncoded string "'c draw_op list"

text \<open>What a call does when it comes back: it returns its error value, or it panics.\<close>

datatype outcome = Returned "error option" | Panicked

text \<open>The column \<open>x\<close> of the heat map; \<open>None\<close> when a lookup in the table panics.\<close>

definition column ::
  "('c, 'z) colorful_scheme \<Rightarrow> InteractiveHeatmapSpeedGenerator \<Rightarrow> 'c stop list \<Rightarrow> nat \<Rightarrow>
   'c draw_op option" where
  "column L g gradient x =
     (let xPos = fdiv (float64_of_int (int x)) (float64_of_int (Width g))
      in case GetInterpolatedColorFor L gradient xPos of
           None \<Rightarrow> None
         | Some c \<Rightarrow>
             (case GetYRange gradient xPos of
                None \<Rightarrow> None
              | Some yRange \<Rightarrow>
                  let top = int64_of_float64
                        (fmul (fdiv (fst yRange) (Fin 100)) (float64_of_int (Height g)));
                      bottom = int64_of_float64
                        (fmul (fdiv (snd yRange) (Fin 100)) (float64_of_int (Height g)))
                  in Some (Fill (int x) (wrap64 (Height g - top)) (int x + 1)
                             (wrap64 (Height g - bottom)) c)))"

text \<open>
  The ten minute marks. \<open>g.Height/2\<close> truncates towards zero. The loop adds \<open>tick\<close> to
  \<open>ts\<close> with wrap-around until \<open>ts\<close> is not below \<open>maxts\<close>; the result is \<open>None\<close> when it
  never is.
\<close>

definition tick :: int where
  "tick = 600000"

definition mark ::
  "('c, 'z) colorful_scheme \<Rightarrow> InteractiveHeatmapSpeedGenerator \<Rightarrow> int \<Rightarrow> int \<Rightarrow> 'c draw_op" where
  "mark L g maxts ts =
     (let x = int64_of_float64
                (fmul (fdiv (float64_of_int ts) (float64_of_int maxts)) (float64_of_int (Width g)))
      in Fill (wrap64 (x - 1))
           (if 0 \<le> Height g then Height g div 2 else - (- Height g div 2))
           (wrap64 (x + 1)) (Height g) (Hex L ''#000000''))"

partial_function (option) tick_marks ::
  "(int \<Rightarrow> 'd) \<Rightarrow> int \<Rightarrow> int \<Rightarrow> 'd list \<Rightarrow> 'd list option" where
  "tick_marks mk maxts ts drawn =
     (if ts < maxts then tick_marks mk maxts (wrap64 (ts + tick)) (drawn @ [mk ts])
      else Some drawn)"

definition RenderHeatmap ::
  "'c writer \<Rightarrow> ('c, 'z) colorful_scheme \<Rightarrow> InteractiveHeatmapSpeedGenerator \<Rightarrow>
   (outcome \<times> 'c event list) option" where
  "RenderHeatmap w L g =
     (case getGradientTable L (Funscript g) (NumSegments g) of
        None \<Rightarrow> Some (Panicked, [])
      | Some gradient \<Rightarrow>
          (case those (map (column L g gradient) [0..<nat (Width g)]) of
             None \<Rightarrow> Some (Panicked, [])
           | Some columns \<Rightarrow>
               (case Actions (Funscript g) of
                  None \<Rightarrow> Some (Panicked, [])
                | Some acts \<Rightarrow>
                    if acts = [] then Some (Panicked, [])
                    else
                      (case tick_marks (mark L g (At (last acts))) (At (last acts)) tick [] of
                         None \<Rightarrow> None
                       | Some marks \<Rightarrow>
                           (case Create w (HeatmapPath g) of
                              Some err \<Rightarrow>
                                Some (Returned (Some err), [FileCreated (HeatmapPath g)])
                            | None \<Rightarrow>
                                Some (Returned (Encode w (HeatmapPath g) (columns @ marks)),
                                      [FileCreated (HeatmapPath g),
                                       ImageEncoded (HeatmapPath g) (columns @ marks)]))))))"

text \<open>
  \<open>Generate\<close> returns what the call does, the generator as it leaves it, and the trace;
  \<open>None\<close> when the call does not come back.
\<close>

definition Generate ::
  "loader \<Rightarrow> 'c writer \<Rightarrow> ('c, 'z) colorful_scheme \<Rightarrow> InteractiveHeatmapSpeedGenerator \<Rightarrow>
   (outcome \<times> InteractiveHeatmapSpeedGenerator \<times> 'c event list) option" where
  "Generate io w L g =
     (case LoadFunscriptData io g (FunscriptPath g) of
        (Inl err, lg) \<Rightarrow> Some (Returned (Some err), g, map Warned lg)
      | (Inr funscript, lg) \<Rightarrow>
          if length (case Actions funscript of None \<Rightarrow> [] | Some xs \<Rightarrow> xs) = 0
          then Some (Returned (Some NoValidActions), g, map Warned lg)
          else
            let g1 = g\<lparr>Funscript := UpdateIntensityAndSpeed funscript\<rparr>
            in (case RenderHeatmap w L g1 of
                  None \<Rightarrow> None
                | Some (Panicked, ev) \<Rightarrow> Some (Panicked, g1, map Warned lg @ ev)
                | Some (Returned (Some err), ev) \<Rightarrow>
                    Some (Returned (Some err), g1, map Warned lg @ ev)
                | Some (Returned None, ev) \<Rightarrow>
                    (case CalculateMedian (Funscript g1) of
                       (None, fs) \<Rightarrow> Some (Panicked, g1\<lparr>Funscript := fs\<rparr>, map Warned lg @ ev)
                     | (Some m, fs) \<Rightarrow>
                         Some (Returned None, g1\<lparr>Funscript := fs, InteractiveSpeed := m\<rparr>,
                               map Warned lg @ ev))))"


text \<open>The text of an error, as its \<open>Error\<close> method gives it.\<close>

fun Error :: "error \<Rightarrow> string" where
  "Error (OSError m) = m"
| "Error (JSONError m) = m"
| "Error (ActionsListMissing path) = ''actions list missing in '' @ path"
| "Error NoValidActions = ''no valid actions in funscript''"

text \<open>The script that \<open>LoadFunscriptData\<close> returns for a decoded document.\<close>

definition loaded :: "InteractiveHeatmapSpeedGenerator \<Rightarrow> Script \<Rightarrow> Action list \<Rightarrow> Script" where
  "loaded g doc acts = doc\<lparr>Actions := Some (filter (\<lambda>a. isValid g (At a)) (sort_key At acts))\<rparr>"

subsection \<open>The rendering returns\<close>

lemma tick_marks_returns:
  assumes "0 \<le> ts" and "maxts + tick \<le> 2 ^ 63"
  shows "\<exists>marks. tick_marks mk maxts ts drawn = Some marks"
  using assms(1)
proof (induction "nat (maxts - ts)" arbitrary: ts drawn rule: less_induct)
  case less
  show ?case
  proof (cases "ts < maxts")
    case True
    have t: "0 < tick" by (simp add: tick_def)
    have "ts + tick < 2 ^ 63" using True assms(2) by linarith
    moreover have "- (2 ^ 63) \<le> ts + tick" using less.prems t by simp
    ultimately have w: "wrap64 (ts + tick) = ts + tick" by (intro wrap64_id)
    have "nat (maxts - (ts + tick)) < nat (maxts - ts)" using True t by linarith
    moreover have "0 \<le> ts + tick" using less.prems t by linarith
    ultimately obtain marks where
      "tick_marks mk maxts (ts + tick) (drawn @ [mk ts]) = Some marks"
      using less.hyps [of "ts + tick" "drawn @ [mk ts]"] by blast
    then show ?thesis using True w by (subst tick_marks.simps) simp
  next
    case False
    then show ?thesis by (subst tick_marks.simps) simp
  qed
qed

lemma GetInterpolatedColorFor_Some: "gt \<noteq> [] \<Longrightarrow> GetInterpolatedColorFor L gt t \<noteq> None"
  by (induction L gt t rule: GetInterpolatedColorFor.induct) simp_all

lemma GetYRange_Some: "gt \<noteq> [] \<Longrightarrow> GetYRange gt t \<noteq> None"
  by (induction gt t rule: GetYRange.induct) simp_all

lemma column_Some:
  assumes "gt \<noteq> []"
  shows "column L g gt x \<noteq> None"
proof -
  let ?xPos = "fdiv (float64_of_int (int x)) (float64_of_int (Width g))"
  obtain c where c: "GetInterpolatedColorFor L gt ?xPos = Some c"
    using GetInterpolatedColorFor_Some [OF assms, of L ?xPos] by blast
  obtain yRange where y: "GetYRange gt ?xPos = Some yRange"
    using GetYRange_Some [OF assms, of ?xPos] by blast
  show ?thesis using c y by (simp add: column_def Let_def)
qed

lemma those_map_Some: "(\<And>x. x \<in> set xs \<Longrightarrow> f x \<noteq> None) \<Longrightarrow> those (map f xs) \<noteq> None"
  by (induction xs) (auto split: option.splits)

lemma RenderHeatmap_returns:
  assumes "Actions (Funscript g) = Some acts" and "acts \<noteq> []" and "sorted (map At acts)"
    and "\<forall>a\<in>set acts. 0 \<le> At a \<and> At a + tick < 2 ^ 63"
    and "0 < NumSegments g" and "NumSegments g \<le> 2 ^ 53"
  shows "\<exists>img. RenderHeatmap w L g =
    Some (case Create w (HeatmapPath g) of
            Some err \<Rightarrow> (Returned (Some err), [FileCreated (HeatmapPath g)])
          | None \<Rightarrow> (Returned (Encode w (HeatmapPath g) img),
                      [FileCreated (HeatmapPath g), ImageEncoded (HeatmapPath g) img]))"
proof -
  have t: "tick = 600000" by (simp add: tick_def)
  have "\<forall>a\<in>set acts. 0 \<le> At a \<and> At a < 2 ^ 63 - 1" using assms(4) t by auto
  then have "binned (Funscript g) (NumSegments g) \<noteq> None"
    using binned_Some [OF assms(1-3) _ assms(5,6)] by blast
  then obtain segs where segs: "binned (Funscript g) (NumSegments g) = Some segs" by blast
  define gradient where
    "gradient = map (stop_of L (NumSegments g) (backfill (NumSegments g) segs))
       [0..<nat (NumSegments g)]"
  have gt: "getGradientTable L (Funscript g) (NumSegments g) = Some gradient"
    using segs by (simp add: getGradientTable_def gradient_def)
  have ne: "gradient \<noteq> []" using assms(5) by (simp add: gradient_def)
  have "those (map (column L g gradient) [0..<nat (Width g)]) \<noteq> None"
    using column_Some [OF ne] by (intro those_map_Some)
  then obtain columns where
    cols: "those (map (column L g gradient) [0..<nat (Width g)]) = Some columns" by blast
  have "last acts \<in> set acts" using assms(2) by simp
  then have "At (last acts) + tick \<le> 2 ^ 63" using assms(4) by fastforce
  then obtain marks where
    marks: "tick_marks (mark L g (At (last acts))) (At (last acts)) tick [] = Some marks"
    using tick_marks_returns [of tick "At (last acts)"] t by auto
  show ?thesis
    using gt cols marks assms(1,2)
    by (intro exI [of _ "columns @ marks"]) (simp add: RenderHeatmap_def split: option.splits)
qed

lemma CalculateMedian_Some:
  assumes "Actions funscript = Some xs" and "xs \<noteq> []"
  shows "\<exists>m. fst (CalculateMedian funscript) = Some m"
proof -
  have "length xs div 2 \<noteq> 0" if "length xs mod 2 = 0"
  proof -
    have "0 < length xs" using assms(2) by simp
    then show ?thesis using that by presburger
  qed
  then show ?thesis using assms(1) by (auto simp: CalculateMedian_def Let_def)
qed

lemma UpdateIntensityAndSpeed_At:
  assumes "Actions funscript = Some acts"
  shows "\<exists>res. Actions (UpdateIntensityAndSpeed funscript) = Some res
    \<and> map At res = map At acts"
proof -
  have "map At (map (annotated acts (length acts)) [0..<length acts]) = map At acts"
    by (rule nth_equalityI) simp_all
  then show ?thesis
    using assms metrics_fold [of "length acts" acts] by (simp add: UpdateIntensityAndSpeed_def)
qed

lemma Generate_on_loaded:
  assumes "LoadFunscriptData io g (FunscriptPath g) = (Inr funscript, lg)"
    and "Actions funscript = Some acts" and "acts \<noteq> []" and "sorted (map At acts)"
    and "\<forall>a\<in>set acts. 0 \<le> At a \<and> At a + tick < 2 ^ 63"
    and "0 < NumSegments g" and "NumSegments g \<le> 2 ^ 53"
  shows "\<exists>img m.
    fst (CalculateMedian (UpdateIntensityAndSpeed funscript)) = Some m
    \<and> Generate io w L g =
      Some (case Create w (HeatmapPath g) of
              Some err \<Rightarrow>
                (Returned (Some err), g\<lparr>Funscript := UpdateIntensityAndSpeed funscript\<rparr>,
                 map Warned lg @ [FileCreated (HeatmapPath g)])
            | None \<Rightarrow>
                (case Encode w (HeatmapPath g) img of
                   Some err \<Rightarrow>
                     (Returned (Some err), g\<lparr>Funscript := UpdateIntensityAndSpeed funscript\<rparr>,
                      map Warned lg
                        @ [FileCreated (HeatmapPath g), ImageEncoded (HeatmapPath g) img])
                 | None \<Rightarrow>
                     (Returned None,
                      g\<lparr>Funscript := snd (CalculateMedian (UpdateIntensityAndSpeed funscript)),
                        InteractiveSpeed := m\<rparr>,
                      map Warned lg
                        @ [FileCreated (HeatmapPath g), ImageEncoded (HeatmapPath g) img])))"
proof -
  let ?g1 = "g\<lparr>Funscript := UpdateIntensityAndSpeed funscript\<rparr>"
  obtain res where res: "Actions (UpdateIntensityAndSpeed funscript) = Some res"
    "map At res = map At acts"
    using UpdateIntensityAndSpeed_At [OF assms(2)] by blast
  have ne: "res \<noteq> []" using res(2) assms(3) by auto
  have srt: "sorted (map At res)" using res(2) assms(4) by simp
  have "At ` set res = At ` set acts" using res(2) by (metis set_map)
  then have rng: "\<forall>a\<in>set res. 0 \<le> At a \<and> At a + tick < 2 ^ 63" using assms(5) by force
  have a1: "Actions (Funscript ?g1) = Some res" using res(1) by simp
  obtain img where img: "RenderHeatmap w L ?g1 =
    Some (case Create w (HeatmapPath ?g1) of
            Some err \<Rightarrow> (Returned (Some err), [FileCreated (HeatmapPath ?g1)])
          | None \<Rightarrow> (Returned (Encode w (HeatmapPath ?g1) img),
                      [FileCreated (HeatmapPath ?g1), ImageEncoded (HeatmapPath ?g1) img]))"
    using RenderHeatmap_returns [OF a1 ne srt rng, of w L] assms(6,7) by auto
  obtain m where m: "fst (CalculateMedian (UpdateIntensityAndSpeed funscript)) = Some m"
    using CalculateMedian_Some [OF res(1) ne] by blast
  obtain fs where fs: "CalculateMedian (UpdateIntensityAndSpeed funscript) = (Some m, fs)"
    using m by (metis fst_conv surj_pair)
  have len: "length acts \<noteq> 0" using assms(3) by simp
  show ?thesis
    using assms(1,2) len img m fs
    by (intro exI [of _ img] exI [of _ m])
       (simp add: Generate_def Let_def split: option.splits)
qed


section \<open>The ways \<open>Generate\<close> ends\<close>

text \<open>
  Claim C9. \<open>Generate\<close> returns a different error for each way of failing, and no error
  otherwise. An error of \<open>os.ReadFile\<close> or of \<open>json.Unmarshal\<close> is returned as it is. A
  document that decodes with no \<open>actions\<close> (a nil slice) gives the error
  \<open>actions list missing in <path>\<close>. A document whose \<open>actions\<close> are present but empty,
  or all outside \<open>0 \<le> at < sceneDurationMilli\<close>, gives the error
  \<open>no valid actions in funscript\<close>, whose text differs from the former for every path;
  in these cases the generator is left as it was, so no median is stored, and the trace
  holds warnings only, so no file is created and no image encoded. When an action is
  valid, the duration leaves room for one tick below \<open>2^63\<close> and there are between 1 and
  \<open>2^53\<close> segments, \<open>Generate\<close> comes back without a panic: with the error of
  \<open>os.Create\<close> or of \<open>png.Encode\<close> if there is one, and otherwise with no error, the
  image encoded and the median of the annotated script stored in \<open>InteractiveSpeed\<close>.
\<close>

theorem Generate_failure_modes:
  "(\<forall>e. ReadFile io (FunscriptPath g) = Inl e \<longrightarrow>
        Generate io w L g = Some (Returned (Some e), g, []))
   \<and> (\<forall>data e. ReadFile io (FunscriptPath g) = Inr data \<and> Unmarshal io data = Inl e \<longrightarrow>
        Generate io w L g = Some (Returned (Some e), g, []))
   \<and> (\<forall>data doc. ReadFile io (FunscriptPath g) = Inr data \<and> Unmarshal io data = Inr doc \<longrightarrow>
        (Actions doc = None \<longrightarrow>
           Generate io w L g =
             Some (Returned (Some (ActionsListMissing (FunscriptPath g))), g, []))
      \<and> (\<forall>acts. Actions doc = Some acts \<longrightarrow>
           ((\<forall>a\<in>set acts. \<not> isValid g (At a)) \<longrightarrow>
              (\<exists>lg. Generate io w L g =
                 Some (Returned (Some NoValidActions), g, map Warned lg)))
         \<and> ((\<exists>a\<in>set acts. isValid g (At a)) \<and> sceneDurationMilli g \<le> 2 ^ 63 - tick
              \<and> 0 < NumSegments g \<and> NumSegments g \<le> 2 ^ 53 \<longrightarrow>
              (\<exists>img m lg.
                 fst (CalculateMedian (UpdateIntensityAndSpeed (loaded g doc acts))) = Some m
               \<and> (\<forall>e. Create w (HeatmapPath g) = Some e \<longrightarrow>
                    Generate io w L g =
                      Some (Returned (Some e),
                            g\<lparr>Funscript := UpdateIntensityAndSpeed (loaded g doc acts)\<rparr>,
                            map Warned lg @ [FileCreated (HeatmapPath g)]))
               \<and> (\<forall>e. Create w (HeatmapPath g) = None
                      \<and> Encode w (HeatmapPath g) img = Some e \<longrightarrow>
                    Generate io w L g =
                      Some (Returned (Some e),
                            g\<lparr>Funscript := UpdateIntensityAndSpeed (loaded g doc acts)\<rparr>,
                            map Warned lg @ [FileCreated (HeatmapPath g),
                                             ImageEncoded (HeatmapPath g) img]))
               \<and> (Create w (HeatmapPath g) = None
                      \<and> Encode w (HeatmapPath g) img = None \<longrightarrow>
                    Generate io w L g =
                      Some (Returned None,
                            g\<lparr>Funscript :=
                                snd (CalculateMedian
                                       (UpdateIntensityAndSpeed (loaded g doc acts))),
                              InteractiveSpeed := m\<rparr>,
                            map Warned lg @ [FileCreated (HeatmapPath g),
                                             ImageEncoded (HeatmapPath g) img]))))))
   \<and> (\<forall>p. Error (ActionsListMissing p) \<noteq> Error NoValidActions)"
proof (intro conjI allI impI)
  fix e
  assume "ReadFile io (FunscriptPath g) = Inl e"
  then show "Generate io w L g = Some (Returned (Some e), g, [])"
    by (simp add: Generate_def LoadFunscriptData_def)
next
  fix data e
  assume "ReadFile io (FunscriptPath g) = Inr data \<and> Unmarshal io data = Inl e"
  then show "Generate io w L g = Some (Returned (Some e), g, [])"
    by (simp add: Generate_def LoadFunscriptData_def)
next
  fix data doc
  assume "ReadFile io (FunscriptPath g) = Inr data \<and> Unmarshal io data = Inr doc"
    and "Actions doc = None"
  then show "Generate io w L g =
      Some (Returned (Some (ActionsListMissing (FunscriptPath g))), g, [])"
    by (simp add: Generate_def LoadFunscriptData_def)
next
  fix data doc acts
  assume rd: "ReadFile io (FunscriptPath g) = Inr data \<and> Unmarshal io data = Inr doc"
    and acts: "Actions doc = Some acts"
    and none: "\<forall>a\<in>set acts. \<not> isValid g (At a)"
  obtain lg where
    ld: "LoadFunscriptData io g (FunscriptPath g) = (Inr (loaded g doc acts), lg)"
    using LoadFunscriptData_Actions [of io "FunscriptPath g" data doc acts g] rd acts
    by (auto simp: loaded_def)
  have "filter (\<lambda>a. isValid g (At a)) (sort_key At acts) = []"
    using none by (simp add: filter_empty_conv)
  then have "Actions (loaded g doc acts) = Some []" by (simp add: loaded_def)
  then have "Generate io w L g = Some (Returned (Some NoValidActions), g, map Warned lg)"
    using ld by (simp add: Generate_def)
  then show "\<exists>lg. Generate io w L g = Some (Returned (Some NoValidActions), g, map Warned lg)"
    by blast
next
  fix data doc acts
  assume rd: "ReadFile io (FunscriptPath g) = Inr data \<and> Unmarshal io data = Inr doc"
    and acts: "Actions doc = Some acts"
    and ok: "(\<exists>a\<in>set acts. isValid g (At a)) \<and> sceneDurationMilli g \<le> 2 ^ 63 - tick
      \<and> 0 < NumSegments g \<and> NumSegments g \<le> 2 ^ 53"
  let ?kept = "filter (\<lambda>a. isValid g (At a)) (sort_key At acts)"
  let ?fs = "UpdateIntensityAndSpeed (loaded g doc acts)"
  obtain lg where
    ld: "LoadFunscriptData io g (FunscriptPath g) = (Inr (loaded g doc acts), lg)"
    using LoadFunscriptData_Actions [of io "FunscriptPath g" data doc acts g] rd acts
    by (auto simp: loaded_def)
  have a: "Actions (loaded g doc acts) = Some ?kept" by (simp add: loaded_def)
  have ne: "?kept \<noteq> []" using ok by (auto simp: filter_empty_conv)
  have srt: "sorted (map At ?kept)" by (intro sorted_filter) simp
  have rng: "\<forall>a\<in>set ?kept. 0 \<le> At a \<and> At a + tick < 2 ^ 63"
    using ok by (auto simp: isValid_def)
  obtain img m where m: "fst (CalculateMedian ?fs) = Some m"
    and gen: "Generate io w L g =
      Some (case Create w (HeatmapPath g) of
              Some err \<Rightarrow>
                (Returned (Some err), g\<lparr>Funscript := ?fs\<rparr>,
                 map Warned lg @ [FileCreated (HeatmapPath g)])
            | None \<Rightarrow>
                (case Encode w (HeatmapPath g) img of
                   Some err \<Rightarrow>
                     (Returned (Some err), g\<lparr>Funscript := ?fs\<rparr>,
                      map Warned lg
                        @ [FileCreated (HeatmapPath g), ImageEncoded (HeatmapPath g) img])
                 | None \<Rightarrow>
                     (Returned None,
                      g\<lparr>Funscript := snd (CalculateMedian ?fs), InteractiveSpeed := m\<rparr>,
                      map Warned lg
                        @ [FileCreated (HeatmapPath g), ImageEncoded (HeatmapPath g) img])))"
    using Generate_on_loaded [OF ld a ne srt rng, of w L] ok by blast
  show "\<exists>img m lg.
      fst (CalculateMedian ?fs) = Some m
    \<and> (\<forall>e. Create w (HeatmapPath g) = Some e \<longrightarrow>
         Generate io w L g =
           Some (Returned (Some e), g\<lparr>Funscript := ?fs\<rparr>,
                 map Warned lg @ [FileCreated (HeatmapPath g)]))
    \<and> (\<forall>e. Create w (HeatmapPath g) = None \<and> Encode w (HeatmapPath g) img = Some e \<longrightarrow>
         Generate io w L g =
           Some (Returned (Some e), g\<lparr>Funscript := ?fs\<rparr>,
                 map Warned lg @ [FileCreated (HeatmapPath g),
                                  ImageEncoded (HeatmapPath g) img]))
    \<and> (Create w (HeatmapPath g) = None \<and> Encode w (HeatmapPath g) img = None \<longrightarrow>
         Generate io w L g =
           Some (Returned None,
                 g\<lparr>Funscript := snd (CalculateMedian ?fs), InteractiveSpeed := m\<rparr>,
                 map Warned lg @ [FileCreated (HeatmapPath g),
                                  ImageEncoded (HeatmapPath g) img]))"
    using m gen by (intro exI [of _ img] exI [of _ m] exI [of _ lg]) simp
next
  fix p
  show "Error (ActionsListMissing p) \<noteq> Error NoValidActions" by simp
qed

text \<open>A writer whose calls succeed, and a file system with no file to read.\<close>

definition sample_writer :: "string writer" where
  "sample_writer = \<lparr>Create = (\<lambda>p. None), Encode = (\<lambda>p img. None)\<rparr>"

definition no_file :: loader where
  "no_file = \<lparr>ReadFile = (\<lambda>p. Inl (OSError ''open a.funscript: no such file or directory'')),
     Unmarshal = (\<lambda>d. Inr Script_zero)\<rparr>"

theorem Generate_failure_modes_witness:
  "Generate no_file sample_writer sample_colorful (gen_of 5000) =
     Some (Returned (Some (OSError ''open a.funscript: no such file or directory'')),
           gen_of 5000, [])
   \<and> Generate (loader_of Script_zero) sample_writer sample_colorful (gen_of 5000) =
     Some (Returned (Some (ActionsListMissing ''a.funscript'')), gen_of 5000, [])
   \<and> (\<exists>lg. Generate (loader_of (doc_of [])) sample_writer sample_colorful (gen_of 5000) =
        Some (Returned (Some NoValidActions), gen_of 5000, map Warned lg))
   \<and> (\<exists>lg. Generate (loader_of (doc_of [decoded (- 5) 10, decoded 9000 20])) sample_writer
              sample_colorful (gen_of 5000) =
        Some (Returned (Some NoValidActions), gen_of 5000, map Warned lg))
   \<and> (\<exists>g' ev. Generate (loader_of (doc_of [decoded 0 0, decoded 1000 100])) sample_writer
              sample_colorful (gen_of 5000) =
        Some (Returned None, g', ev))
   \<and> Error (ActionsListMissing ''a.funscript'') \<noteq> Error NoValidActions"
proof -
  have p: "FunscriptPath (gen_of 5000) = ''a.funscript''" by (simp add: gen_of_def)
  have a: "Generate no_file sample_writer sample_colorful (gen_of 5000) =
     Some (Returned (Some (OSError ''open a.funscript: no such file or directory'')),
           gen_of 5000, [])"
    using Generate_failure_modes [of no_file "gen_of 5000" sample_writer sample_colorful]
    by (simp add: no_file_def)
  have b: "Generate (loader_of Script_zero) sample_writer sample_colorful (gen_of 5000) =
     Some (Returned (Some (ActionsListMissing ''a.funscript'')), gen_of 5000, [])"
    using Generate_failure_modes [of "loader_of Script_zero" "gen_of 5000" sample_writer
        sample_colorful]
    by (simp add: loader_of_def Script_zero_def p)
  have c: "\<exists>lg. Generate (loader_of (doc_of [])) sample_writer sample_colorful (gen_of 5000) =
        Some (Returned (Some NoValidActions), gen_of 5000, map Warned lg)"
    using Generate_failure_modes [of "loader_of (doc_of [])" "gen_of 5000" sample_writer
        sample_colorful]
    by (simp add: loader_of_def doc_of_def)
  have d: "\<exists>lg. Generate (loader_of (doc_of [decoded (- 5) 10, decoded 9000 20])) sample_writer
              sample_colorful (gen_of 5000) =
        Some (Returned (Some NoValidActions), gen_of 5000, map Warned lg)"
    using Generate_failure_modes [of "loader_of (doc_of [decoded (- 5) 10, decoded 9000 20])"
        "gen_of 5000" sample_writer sample_colorful]
    by (simp add: loader_of_def doc_of_def isValid_def decoded_def gen_of_def)
  have e: "\<exists>g' ev. Generate (loader_of (doc_of [decoded 0 0, decoded 1000 100])) sample_writer
              sample_colorful (gen_of 5000) =
        Some (Returned None, g', ev)"
    using Generate_failure_modes [of "loader_of (doc_of [decoded 0 0, decoded 1000 100])"
        "gen_of 5000" sample_writer sample_colorful]
    by (simp add: loader_of_def doc_of_def isValid_def decoded_def gen_of_def tick_def
        sample_writer_def) blast
  have f: "Error (ActionsListMissing ''a.funscript'') \<noteq> Error NoValidActions"
    using Generate_failure_modes [of no_file "gen_of 5000" sample_writer sample_colorful]
    by simp
  show ?thesis using a b c d e f by simp
qed

end
